theory Spec2Isabelle
  imports
    Main
    "HOL-Library.Word"
    "HOL-Library.List_Lexorder"
    "HOL-Library.Char_ord"
begin

section \<open>JavaScript built-ins used by the library\<close>

text \<open>
  \<^verbatim>\<open>Array.prototype.slice(start, end)\<close> and \<^verbatim>\<open>String.prototype.slice\<close> on integer
  arguments: a negative index counts from the end, both indices are clamped to the length,
  and an empty range gives the empty sequence.
\<close>

definition js_slice :: "'a list \<Rightarrow> int \<Rightarrow> int \<Rightarrow> 'a list" where
  "js_slice xs start end =
     (let len = int (length xs);
          k = (if start < 0 then max (len + start) 0 else min start len);
          final = (if end < 0 then max (len + end) 0 else min end len)
      in take (nat (final - k)) (drop (nat k) xs))"

text \<open>
  A string is a sequence of code units; the model keeps the code units below 256
  (the Latin-1 range), which is what \<^typ>\<open>char\<close> holds. In that range the white space
  of \<^verbatim>\<open>trim\<close> and of the regular expression class \<^verbatim>\<open>\s\<close> is TAB, LF, VT, FF, CR, SP and
  NBSP, and \<^verbatim>\<open>toLowerCase\<close> maps A-Z and the accented capitals 0xC0-0xDE (without the
  multiplication sign 0xD7) 32 positions up. Outside that range \<^verbatim>\<open>toLowerCase\<close> can change
  the number of code units (U+0130 becomes two of them); such texts are not covered, and
  no theorem below compares the length of a text before and after \<^verbatim>\<open>toLowerCase\<close>.
\<close>

definition isWhiteSpace :: "char \<Rightarrow> bool" where
  "isWhiteSpace c = ((of_char c :: nat) \<in> {9, 10, 11, 12, 13, 32, 160})"

definition trim :: "string \<Rightarrow> string" where
  "trim s = rev (dropWhile isWhiteSpace (rev (dropWhile isWhiteSpace s)))"

definition toLowerCase_char :: "char \<Rightarrow> char" where
  "toLowerCase_char c =
     (let n = (of_char c :: nat)
      in if (65 \<le> n \<and> n \<le> 90) \<or> (192 \<le> n \<and> n \<le> 222 \<and> n \<noteq> 215)
         then char_of (n + 32) else c)"

definition toLowerCase :: "string \<Rightarrow> string" where
  "toLowerCase s = map toLowerCase_char s"

text \<open>\<^verbatim>\<open>s.replace(/\s+/g, " ")\<close>: every maximal run of white space becomes one space.\<close>

function replace_ws_runs :: "string \<Rightarrow> string" where
  "replace_ws_runs [] = []"
| "replace_ws_runs (c # cs) =
     (if isWhiteSpace c then CHR '' '' # replace_ws_runs (dropWhile isWhiteSpace cs)
      else c # replace_ws_runs cs)"
  by pat_completeness auto
termination
  by (relation "measure length") (auto simp: length_dropWhile_le less_Suc_eq_le)

text \<open>
  \<^verbatim>\<open>String.fromCharCode(byte)\<close> for a byte, and \<^verbatim>\<open>charCodeAt\<close> stored into a
  \<^verbatim>\<open>Uint8Array\<close> (which keeps the low eight bits).
\<close>

definition fromCharCode :: "8 word \<Rightarrow> char" where
  "fromCharCode b = char_of (unat b)"

definition charCode_byte :: "char \<Rightarrow> 8 word" where
  "charCode_byte c = of_nat (of_char c)"

section \<open>The platform: encodings, WebCrypto, JSON\<close>

text \<open>
  The library calls the platform for UTF-8, base64, PBKDF2, AES-GCM, HMAC, JSON and number
  formatting. None of that is code of the repository, so the model takes these primitives
  as a record of functions and states the contracts it uses as hypotheses. A primitive
  that can throw returns an option. \<^verbatim>\<open>Uint8Array\<close> is a list of 8-bit words.
\<close>

type_synonym bytes = "8 word list"

datatype HashAlg = SHA_256 | SHA_512

datatype KeyAlg = PBKDF2 | AES_GCM | HMAC HashAlg

datatype KeyUsage = UseDeriveBits | UseEncrypt | UseDecrypt | UseSign

datatype error =
    StoreUnavailable
  | CacheUnavailable
  | DataError
  | InvalidAccessError
  | OperationError
  | InvalidCharacterError
  | SyntaxError
  | NoReturn

record CryptoKey =
  algorithm :: KeyAlg
  raw :: bytes
  extractable :: bool
  usages :: "KeyUsage list"

record 'j platform =
  utf8_encode :: "string \<Rightarrow> bytes"
  utf8_decode :: "bytes \<Rightarrow> string"
  has_Buffer :: bool
  buffer_to_base64 :: "bytes \<Rightarrow> string"
  buffer_from_base64 :: "string \<Rightarrow> bytes"
  btoa :: "string \<Rightarrow> string"
  atob :: "string \<Rightarrow> string option"
  pbkdf2_bits :: "HashAlg \<Rightarrow> bytes \<Rightarrow> bytes \<Rightarrow> nat \<Rightarrow> nat \<Rightarrow> bytes option"
  aes_gcm_encrypt :: "bytes \<Rightarrow> bytes \<Rightarrow> bytes \<Rightarrow> bytes option"
  aes_gcm_decrypt :: "bytes \<Rightarrow> bytes \<Rightarrow> bytes \<Rightarrow> bytes option"
  hmac_sign :: "HashAlg \<Rightarrow> bytes \<Rightarrow> bytes \<Rightarrow> bytes"
  json_stringify :: "'j \<Rightarrow> string"
  json_parse :: "string \<Rightarrow> 'j option"
  env_salt :: "string option"
  toLocaleString :: "nat \<Rightarrow> string"

text \<open>
  \<^verbatim>\<open>crypto.subtle.importKey("raw", keyData, algorithm, extractable, usages)\<close>: an AES key is
  128, 192 or 256 bits long, an HMAC key is not empty.
\<close>

definition importKey_raw ::
  "bytes \<Rightarrow> KeyAlg \<Rightarrow> bool \<Rightarrow> KeyUsage list \<Rightarrow> error + CryptoKey" where
  "importKey_raw keyData alg ext us =
     (case alg of
        AES_GCM \<Rightarrow>
          if length keyData = 16 \<or> length keyData = 24 \<or> length keyData = 32
          then Inr \<lparr>algorithm = alg, raw = keyData, extractable = ext, usages = us\<rparr>
          else Inl DataError
      | HMAC h \<Rightarrow>
          if keyData = [] then Inl DataError
          else Inr \<lparr>algorithm = alg, raw = keyData, extractable = ext, usages = us\<rparr>
      | PBKDF2 \<Rightarrow>
          if ext then Inl SyntaxError
          else Inr \<lparr>algorithm = alg, raw = keyData, extractable = ext, usages = us\<rparr>)"

text \<open>\<^verbatim>\<open>crypto.subtle.deriveBits({name: "PBKDF2", salt, iterations, hash}, baseKey, length)\<close>.\<close>

definition subtle_deriveBits ::
  "'j platform \<Rightarrow> HashAlg \<Rightarrow> bytes \<Rightarrow> nat \<Rightarrow> CryptoKey \<Rightarrow> nat \<Rightarrow> error + bytes" where
  "subtle_deriveBits P h salt iters baseKey len =
     (if algorithm baseKey \<noteq> PBKDF2 \<or> UseDeriveBits \<notin> set (usages baseKey)
      then Inl InvalidAccessError
      else case pbkdf2_bits P h (raw baseKey) salt iters len of
             None \<Rightarrow> Inl OperationError
           | Some bits \<Rightarrow> Inr bits)"

text \<open>\<^verbatim>\<open>crypto.subtle.encrypt({name: "AES-GCM", iv}, key, data)\<close> and its inverse.\<close>

definition subtle_encrypt ::
  "'j platform \<Rightarrow> bytes \<Rightarrow> CryptoKey \<Rightarrow> bytes \<Rightarrow> error + bytes" where
  "subtle_encrypt P ivBytes key plaintext =
     (if algorithm key \<noteq> AES_GCM \<or> UseEncrypt \<notin> set (usages key)
      then Inl InvalidAccessError
      else case aes_gcm_encrypt P (raw key) ivBytes plaintext of
             None \<Rightarrow> Inl OperationError
           | Some ciphertext \<Rightarrow> Inr ciphertext)"

definition subtle_decrypt ::
  "'j platform \<Rightarrow> bytes \<Rightarrow> CryptoKey \<Rightarrow> bytes \<Rightarrow> error + bytes" where
  "subtle_decrypt P ivBytes key ciphertext =
     (if algorithm key \<noteq> AES_GCM \<or> UseDecrypt \<notin> set (usages key)
      then Inl InvalidAccessError
      else case aes_gcm_decrypt P (raw key) ivBytes ciphertext of
             None \<Rightarrow> Inl OperationError
           | Some plaintext \<Rightarrow> Inr plaintext)"

text \<open>\<^verbatim>\<open>crypto.subtle.sign("HMAC", key, data)\<close>: the hash is the one the key was imported with.\<close>

definition subtle_sign :: "'j platform \<Rightarrow> CryptoKey \<Rightarrow> bytes \<Rightarrow> error + bytes" where
  "subtle_sign P key data =
     (case algorithm key of
        HMAC h \<Rightarrow>
          if UseSign \<in> set (usages key) then Inr (hmac_sign P h (raw key) data)
          else Inl InvalidAccessError
      | _ \<Rightarrow> Inl InvalidAccessError)"

section \<open>lib/utils.ts\<close>

text \<open>
  \<^verbatim>\<open>chunk(items, size)\<close>: the \<^verbatim>\<open>for\<close> loop with counter \<open>i\<close> and accumulator \<open>out\<close>.
  The loop need not end, so it is a partial function: \<open>None\<close> is "does not return".
\<close>

partial_function (option) chunk_loop ::
  "'a list \<Rightarrow> int \<Rightarrow> int \<Rightarrow> 'a list list \<Rightarrow> 'a list list option" where
  "chunk_loop items sz i out =
     (if i < int (length items)
      then chunk_loop items sz (i + sz) (out @ [js_slice items i (i + sz)])
      else Some out)"

definition chunk :: "'a list \<Rightarrow> int \<Rightarrow> 'a list list option" where
  "chunk items sz = chunk_loop items sz 0 []"

section \<open>lib/crypto.ts: normalisation and prefixes\<close>

definition normalize :: "string \<Rightarrow> string" where
  "normalize val = replace_ws_runs (toLowerCase (trim val))"

text \<open>The loop of \<^verbatim>\<open>prefixes\<close>: \<^verbatim>\<open>for (let i = 1; i <= cap; i += 1) out.push(norm.slice(0, i))\<close>.\<close>

function prefixes_loop :: "string \<Rightarrow> int \<Rightarrow> int \<Rightarrow> string list \<Rightarrow> string list" where
  "prefixes_loop norm cap i out =
     (if i \<le> cap then prefixes_loop norm cap (i + 1) (out @ [js_slice norm 0 i]) else out)"
  by pat_completeness auto
termination
  by (relation "measure (\<lambda>(norm, cap, i, out). nat (cap + 1 - i))") auto

definition prefixes :: "string \<Rightarrow> int \<Rightarrow> string list" where
  "prefixes val maxLen =
     (let norm = normalize val;
          cap = min maxLen (int (length norm))
      in prefixes_loop norm cap 1 [])"

text \<open>The default argument \<^verbatim>\<open>maxLen = 20\<close>.\<close>

definition prefixes_default :: "string \<Rightarrow> string list" where
  "prefixes_default val = prefixes val 20"

section \<open>lib/crypto.ts: keys, encryption, tokens\<close>

record KdfOptions =
  iterations :: nat
  hmacHash :: HashAlg

definition DEFAULT_KDF :: KdfOptions where
  "DEFAULT_KDF = \<lparr>iterations = 100000, hmacHash = SHA_256\<rparr>"

definition PQ_KDF :: KdfOptions where
  "PQ_KDF = \<lparr>iterations = 300000, hmacHash = SHA_512\<rparr>"

text \<open>
  \<^verbatim>\<open>bytesToBase64\<close> and \<^verbatim>\<open>base64ToBytes\<close>: through \<^verbatim>\<open>Buffer\<close> where it exists, otherwise
  through a binary string (one character per byte) and \<^verbatim>\<open>btoa\<close>/\<^verbatim>\<open>atob\<close>.
\<close>

definition bytesToBase64 :: "'j platform \<Rightarrow> bytes \<Rightarrow> string" where
  "bytesToBase64 P bs =
     (if has_Buffer P then buffer_to_base64 P bs
      else btoa P (map fromCharCode bs))"

definition base64ToBytes :: "'j platform \<Rightarrow> string \<Rightarrow> error + bytes" where
  "base64ToBytes P base64 =
     (if has_Buffer P then Inr (buffer_from_base64 P base64)
      else case atob P base64 of
             None \<Rightarrow> Inl InvalidCharacterError
           | Some binary \<Rightarrow> Inr (map charCode_byte binary))"

text \<open>
  \<^verbatim>\<open>bytesToBase64Url\<close>: \<^verbatim>\<open>+\<close> becomes \<^verbatim>\<open>-\<close>, \<^verbatim>\<open>/\<close> becomes \<^verbatim>\<open>_\<close>, the trailing run of
  \<^verbatim>\<open>=\<close> is dropped.
\<close>

definition bytesToBase64Url :: "'j platform \<Rightarrow> bytes \<Rightarrow> string" where
  "bytesToBase64Url P bs =
     rev (dropWhile (\<lambda>c. c = CHR ''='')
       (rev (map (\<lambda>c. if c = CHR ''/'' then CHR ''_'' else c)
               (map (\<lambda>c. if c = CHR ''+'' then CHR ''-'' else c) (bytesToBase64 P bs)))))"

definition getSalt :: "'j platform \<Rightarrow> bytes" where
  "getSalt P =
     utf8_encode P
       (case env_salt P of
          None \<Rightarrow> ''encrypted-search-demo-salt''
        | Some s \<Rightarrow> if s = [] then ''encrypted-search-demo-salt'' else s)"

record DerivedKeys =
  encKey :: CryptoKey
  indexKey :: CryptoKey

definition deriveKeys ::
  "'j platform \<Rightarrow> string \<Rightarrow> bytes \<Rightarrow> KdfOptions \<Rightarrow> error + DerivedKeys" where
  "deriveKeys P passphrase salt options =
     (case importKey_raw (utf8_encode P passphrase) PBKDF2 False [UseDeriveBits] of
        Inl e \<Rightarrow> Inl e
      | Inr baseKey \<Rightarrow>
     (case subtle_deriveBits P SHA_256 salt (iterations options) baseKey 512 of
        Inl e \<Rightarrow> Inl e
      | Inr bits \<Rightarrow>
     (let encKeyBytes = js_slice bits 0 32;
          indexKeyBytes = js_slice bits 32 64
      in case importKey_raw encKeyBytes AES_GCM False [UseEncrypt, UseDecrypt] of
           Inl e \<Rightarrow> Inl e
         | Inr ek \<Rightarrow>
        (case importKey_raw indexKeyBytes (HMAC (hmacHash options)) False [UseSign] of
           Inl e \<Rightarrow> Inl e
         | Inr ik \<Rightarrow> Inr \<lparr>encKey = ek, indexKey = ik\<rparr>))))"

record Cipher =
  ct :: string
  iv :: string

text \<open>
  \<^verbatim>\<open>encryptJson\<close>. The random source is an argument: \<open>rnd n\<close> is what
  \<^verbatim>\<open>crypto.getRandomValues(new Uint8Array(n))\<close> gives in this call. The payload type \<open>'j\<close>
  holds the JSON-serializable values, on which \<^verbatim>\<open>JSON.stringify\<close> returns a string.
\<close>

definition encryptJson ::
  "'j platform \<Rightarrow> (nat \<Rightarrow> bytes) \<Rightarrow> 'j \<Rightarrow> CryptoKey \<Rightarrow> error + Cipher" where
  "encryptJson P rnd payload ek =
     (let ivBytes = rnd 12;
          plaintext = utf8_encode P (json_stringify P payload)
      in case subtle_encrypt P ivBytes ek plaintext of
           Inl e \<Rightarrow> Inl e
         | Inr ciphertext \<Rightarrow>
             Inr \<lparr>ct = bytesToBase64 P ciphertext, iv = bytesToBase64 P ivBytes\<rparr>)"

definition decryptJson ::
  "'j platform \<Rightarrow> string \<Rightarrow> string \<Rightarrow> CryptoKey \<Rightarrow> error + 'j" where
  "decryptJson P ct_b64 iv_b64 ek =
     (case base64ToBytes P ct_b64 of
        Inl e \<Rightarrow> Inl e
      | Inr ciphertext \<Rightarrow>
     (case base64ToBytes P iv_b64 of
        Inl e \<Rightarrow> Inl e
      | Inr ivBytes \<Rightarrow>
     (case subtle_decrypt P ivBytes ek ciphertext of
        Inl e \<Rightarrow> Inl e
      | Inr plaintext \<Rightarrow>
     (case json_parse P (utf8_decode P plaintext) of
        None \<Rightarrow> Inl SyntaxError
      | Some v \<Rightarrow> Inr v))))"

definition computeToken :: "'j platform \<Rightarrow> string \<Rightarrow> CryptoKey \<Rightarrow> error + string" where
  "computeToken P normalizedQuery ik =
     (case subtle_sign P ik (utf8_encode P normalizedQuery) of
        Inl e \<Rightarrow> Inl e
      | Inr signature \<Rightarrow> Inr (bytesToBase64Url P signature))"

definition encodePrefixDocId :: "string \<Rightarrow> string" where
  "encodePrefixDocId prefixValue = prefixValue"

section \<open>lib/types.ts\<close>

datatype Mode = blindIndex | decryptScan | clientCache | plaintextIndex

record PersonRecord =
  pid :: string
  name :: string
  email :: string
  city :: string
  company :: string

record 't BenchmarkBreakdown =
  indexMs :: 't
  fetchMs :: 't
  decryptMs :: 't
  scanMs :: 't
  cacheBuildMs :: "'t option"

record 't BenchmarkResult =
  mode :: Mode
  totalMs :: 't
  breakdown :: "'t BenchmarkBreakdown"
  resultCount :: nat
  sampleNote :: "string option"
  hits :: "PersonRecord list"

record 't CachedDataset =
  datasetId :: string
  records :: "PersonRecord list"
  builtAt :: 't
  recordCount :: nat
  cap :: nat
  buildMs :: "'t option"

section \<open>The world a benchmark runs in\<close>

text \<open>
  The record store (Firestore), the persistent cache (IndexedDB) and the clock are outside
  the library; the model keeps them in one state record that every effectful function
  takes and returns.
  \<^item> \<open>store_records ds\<close> is the collection \<^verbatim>\<open>datasets/ds/records\<close>, listed in the order of
    the document ids; \<open>store_index ds\<close> and \<open>store_plaintextIndex ds\<close> give the
    \<^verbatim>\<open>recordIds\<close> of a bucket document, \<open>None\<close> when the document or the field is absent.
    With \<open>store_online\<close> false every read of the store throws.
  \<^item> \<open>store_reads\<close> is a log of the id groups the batch lookups asked for.
  \<^item> \<open>cache_db\<close> is the object store of the cache; with \<open>cache_online\<close> false every
    IndexedDB request fails.
  \<^item> \<open>clock k\<close> is what the \<open>k\<close>-th call of \<^verbatim>\<open>now()\<close> returns and \<open>ticks\<close> counts the
    calls so far; \<open>date_now\<close> is \<^verbatim>\<open>Date.now()\<close>. The time type \<open>'t\<close> only needs \<open>0\<close>, \<open>+\<close>
    and \<open>-\<close>.
\<close>

record EncDoc =
  doc_id :: string
  doc_ct :: string
  doc_iv :: string

record 't world =
  store_online :: bool
  store_records :: "string \<Rightarrow> EncDoc list"
  store_index :: "string \<Rightarrow> string \<Rightarrow> string list option"
  store_plaintextIndex :: "string \<Rightarrow> string \<Rightarrow> string list option"
  store_reads :: "string list list"
  cache_online :: bool
  cache_db :: "string \<Rightarrow> 't CachedDataset option"
  clock :: "nat \<Rightarrow> 't"
  ticks :: nat
  date_now :: 't

definition now :: "'t world \<Rightarrow> 't \<times> 't world" where
  "now w = (clock w (ticks w), w\<lparr>ticks := Suc (ticks w)\<rparr>)"

text \<open>
  \<^verbatim>\<open>getDoc(doc(db, `datasets/${datasetId}/index/${token}`))\<close> and the plaintext twin. The
  store is addressed by the dataset and the document id, each taken as one segment of the
  path. A token is base64url text and has no \<^verbatim>\<open>/\<close>; a dataset id or a plaintext prefix
  with a \<^verbatim>\<open>/\<close> in it would be cut into several segments by \<^verbatim>\<open>doc\<close>, which then throws or
  addresses another document: such ids are not covered.
\<close>

definition getDoc_index :: "'t world \<Rightarrow> string \<Rightarrow> string \<Rightarrow> error + string list option" where
  "getDoc_index w ds token =
     (if store_online w then Inr (store_index w ds token) else Inl StoreUnavailable)"

definition getDoc_plaintextIndex ::
  "'t world \<Rightarrow> string \<Rightarrow> string \<Rightarrow> error + string list option" where
  "getDoc_plaintextIndex w ds docId =
     (if store_online w then Inr (store_plaintextIndex w ds docId) else Inl StoreUnavailable)"

text \<open>\<^verbatim>\<open>getDocs(query(records, where(documentId(), "in", group)))\<close>.\<close>

definition getDocs_in ::
  "'t world \<Rightarrow> string \<Rightarrow> string list \<Rightarrow> error + (EncDoc list \<times> 't world)" where
  "getDocs_in w ds grp =
     (if store_online w
      then Inr (filter (\<lambda>d. doc_id d \<in> set grp) (store_records w ds),
                w\<lparr>store_reads := store_reads w @ [grp]\<rparr>)
      else Inl StoreUnavailable)"

text \<open>
  \<^verbatim>\<open>getDocs(query(records, orderBy(documentId()), startAfter(lastId), limit(pageSize)))\<close>;
  without a cursor the query has no \<^verbatim>\<open>startAfter\<close>. \<open>pending w ds cursor\<close> is what the
  ordered collection holds after the cursor.
\<close>

definition pending :: "'t world \<Rightarrow> string \<Rightarrow> string option \<Rightarrow> EncDoc list" where
  "pending w ds cursor =
     (case cursor of
        None \<Rightarrow> store_records w ds
      | Some a \<Rightarrow> filter (\<lambda>d. a < doc_id d) (store_records w ds))"

definition getDocs_page ::
  "'t world \<Rightarrow> string \<Rightarrow> string option \<Rightarrow> nat \<Rightarrow> error + EncDoc list" where
  "getDocs_page w ds cursor lim =
     (if store_online w then Inr (take lim (pending w ds cursor)) else Inl StoreUnavailable)"

section \<open>lib/cache.ts\<close>

text \<open>\<^verbatim>\<open>getCachedDataset\<close> catches every failure and answers \<^verbatim>\<open>null\<close>.\<close>

definition getCachedDataset :: "'t world \<Rightarrow> string \<Rightarrow> 't CachedDataset option" where
  "getCachedDataset w ds = (if cache_online w then cache_db w ds else None)"

definition setCachedDataset :: "'t world \<Rightarrow> 't CachedDataset \<Rightarrow> error + 't world" where
  "setCachedDataset w c =
     (if cache_online w
      then Inr (w\<lparr>cache_db := (cache_db w)(datasetId c := Some c)\<rparr>)
      else Inl CacheUnavailable)"

definition clearCachedDataset :: "'t world \<Rightarrow> string \<Rightarrow> error + 't world" where
  "clearCachedDataset w ds =
     (if cache_online w
      then Inr (w\<lparr>cache_db := (cache_db w)(ds := None)\<rparr>)
      else Inl CacheUnavailable)"

definition startsWith :: "string \<Rightarrow> string \<Rightarrow> bool" where
  "startsWith s q = (take (length q) s = q)"

definition matchesQuery :: "string \<Rightarrow> PersonRecord \<Rightarrow> bool" where
  "matchesQuery normalizedQuery r =
     (startsWith (normalize (name r)) normalizedQuery
      \<or> startsWith (normalize (email r)) normalizedQuery)"

definition searchCache :: "PersonRecord list \<Rightarrow> string \<Rightarrow> PersonRecord list" where
  "searchCache rs normalizedQuery = filter (matchesQuery normalizedQuery) rs"

section \<open>lib/benchmark.ts\<close>

definition CACHE_CAP :: nat where "CACHE_CAP = 10000"
definition MAX_HITS :: nat where "MAX_HITS = 20"
definition FULL_SCAN_PAGE_SIZE :: nat where "FULL_SCAN_PAGE_SIZE = 1000"
definition MAX_RESULT_FETCH :: nat where "MAX_RESULT_FETCH = 50"

text \<open>
  \<^verbatim>\<open>DATASET_SIZES[datasetId] ?? 1_000\<close>: the size listed for the dataset, 1000 for an id
  that is not listed. An id that names a member every object inherits (\<^verbatim>\<open>constructor\<close>,
  \<^verbatim>\<open>toString\<close>, ...) reads that member instead of a number; such ids are not covered.
\<close>

definition getDatasetSize :: "string \<Rightarrow> nat" where
  "getDatasetSize ds =
     (if ds = ''people-1k'' then 1000
      else if ds = ''people-10k'' then 10000
      else if ds = ''people-100k'' then 100000
      else 1000)"

text \<open>
  \<^verbatim>\<open>fetchRecordsByIds\<close>: one batch lookup for each group of ten ids, one group after
  the other. A \<^verbatim>\<open>chunk\<close> that does not return would be \<open>NoReturn\<close> here; with the size 10
  it always returns.
\<close>

fun fetch_groups ::
  "'t world \<Rightarrow> string \<Rightarrow> string list list \<Rightarrow> EncDoc list \<Rightarrow> error + (EncDoc list \<times> 't world)"
  where
  "fetch_groups w ds [] docs = Inr (docs, w)"
| "fetch_groups w ds (g # gs) docs =
     (case getDocs_in w ds g of
        Inl e \<Rightarrow> Inl e
      | Inr (snapshot, w') \<Rightarrow> fetch_groups w' ds gs (docs @ snapshot))"

definition fetchRecordsByIds ::
  "'t::minus world \<Rightarrow> string \<Rightarrow> string list \<Rightarrow> error + ((EncDoc list \<times> 't) \<times> 't world)" where
  "fetchRecordsByIds w ds recordIds =
     (let (start, w1) = now w
      in case chunk recordIds 10 of
           None \<Rightarrow> Inl NoReturn
         | Some groups \<Rightarrow>
        (case fetch_groups w1 ds groups [] of
           Inl e \<Rightarrow> Inl e
         | Inr (docs, w2) \<Rightarrow>
             let (t, w3) = now w2 in Inr ((docs, t - start), w3)))"

definition fetchRecordPage ::
  "'t::minus world \<Rightarrow> string \<Rightarrow> nat \<Rightarrow> error + ((EncDoc list \<times> 't) \<times> 't world)" where
  "fetchRecordPage w ds pageSize =
     (let (start, w1) = now w
      in case getDocs_page w1 ds None pageSize of
           Inl e \<Rightarrow> Inl e
         | Inr docs \<Rightarrow> let (t, w2) = now w1 in Inr ((docs, t - start), w2))"

text \<open>
  \<^verbatim>\<open>decryptRecords\<close>: every document is decrypted, in order; the first failure aborts
  the loop. \<^verbatim>\<open>{ ...payload, id: doc.id }\<close> overwrites the id of the payload.
\<close>

fun decrypt_loop ::
  "PersonRecord platform \<Rightarrow> CryptoKey \<Rightarrow> EncDoc list \<Rightarrow> PersonRecord list
     \<Rightarrow> error + PersonRecord list" where
  "decrypt_loop P ek [] rs = Inr rs"
| "decrypt_loop P ek (d # ds) rs =
     (case decryptJson P (doc_ct d) (doc_iv d) ek of
        Inl e \<Rightarrow> Inl e
      | Inr payload \<Rightarrow> decrypt_loop P ek ds (rs @ [payload\<lparr>pid := doc_id d\<rparr>]))"

definition decryptRecords ::
  "PersonRecord platform \<Rightarrow> 't::minus world \<Rightarrow> EncDoc list \<Rightarrow> CryptoKey
     \<Rightarrow> error + ((PersonRecord list \<times> 't) \<times> 't world)" where
  "decryptRecords P w docs ek =
     (let (start, w1) = now w
      in case decrypt_loop P ek docs [] of
           Inl e \<Rightarrow> Inl e
         | Inr rs \<Rightarrow> let (t, w2) = now w1 in Inr ((rs, t - start), w2))"

definition scanRecords ::
  "'t::minus world \<Rightarrow> PersonRecord list \<Rightarrow> string \<Rightarrow> (PersonRecord list \<times> 't) \<times> 't world" where
  "scanRecords w rs normalizedQuery =
     (let (start, w1) = now w;
          matches = filter (matchesQuery normalizedQuery) rs;
          (t, w2) = now w1
      in ((matches, t - start), w2))"

text \<open>
  \<^verbatim>\<open>fetchAllRecords\<close>: the \<^verbatim>\<open>while (true)\<close> loop over the pages. The cursor \<open>lastId\<close> is
  used when it is truthy (present and not the empty string). The loop stops at a short
  page, or when the last document of the page has no usable id.
\<close>

function fetchAll_loop ::
  "'t world \<Rightarrow> string \<Rightarrow> nat \<Rightarrow> string option \<Rightarrow> EncDoc list \<Rightarrow> error + EncDoc list" where
  "fetchAll_loop w ds pageSize lastId docs =
     (case getDocs_page w ds
             (case lastId of None \<Rightarrow> None | Some l \<Rightarrow> if l = [] then None else Some l)
             pageSize of
        Inl e \<Rightarrow> Inl e
      | Inr snapshot \<Rightarrow>
          if length snapshot < pageSize then Inr (docs @ snapshot)
          else if snapshot = [] then Inr (docs @ snapshot)
          else if doc_id (last snapshot) = [] then Inr (docs @ snapshot)
          else fetchAll_loop w ds pageSize (Some (doc_id (last snapshot))) (docs @ snapshot))"
  by pat_completeness auto

termination
proof (relation "measure (\<lambda>(w, ds, pageSize, lastId, docs).
          case lastId of
            None \<Rightarrow> Suc (length (store_records w ds))
          | Some l \<Rightarrow> if l = [] then Suc (length (store_records w ds))
                      else length (filter (\<lambda>d. l < doc_id d) (store_records w ds)))")
  show "wf (measure (\<lambda>(w :: 't world, ds, pageSize :: nat, lastId, docs :: EncDoc list).
          case lastId of
            None \<Rightarrow> Suc (length (store_records w ds))
          | Some l \<Rightarrow> if l = [] then Suc (length (store_records w ds))
                      else length (filter (\<lambda>d. l < doc_id d) (store_records w ds))))"
    by simp
next
  fix w :: "'t world" and ds pageSize and lastId :: "string option" and docs snapshot :: "EncDoc list"
  let ?recs = "store_records w ds"
  let ?cursor = "case lastId of None \<Rightarrow> None | Some l \<Rightarrow> if l = [] then None else Some l"
  assume page: "getDocs_page w ds ?cursor pageSize = Inr snapshot"
    and ne: "snapshot \<noteq> []" and idne: "doc_id (last snapshot) \<noteq> []"
  let ?L = "last snapshot"
  let ?new = "filter (\<lambda>d. doc_id ?L < doc_id d) ?recs"
  show "((w, ds, pageSize, Some (doc_id ?L), docs @ snapshot), (w, ds, pageSize, lastId, docs))
        \<in> measure (\<lambda>(w, ds, pageSize, lastId, docs).
          case lastId of
            None \<Rightarrow> Suc (length (store_records w ds))
          | Some l \<Rightarrow> if l = [] then Suc (length (store_records w ds))
                      else length (filter (\<lambda>d. l < doc_id d) (store_records w ds)))"
  proof (cases ?cursor)
    case None
    then have "(case lastId of None \<Rightarrow> Suc (length ?recs)
                | Some l \<Rightarrow> if l = [] then Suc (length ?recs)
                            else length (filter (\<lambda>d. l < doc_id d) ?recs)) = Suc (length ?recs)"
      by (auto split: option.splits if_splits)
    moreover have "length ?new < Suc (length ?recs)"
      by (simp add: less_Suc_eq_le)
    ultimately show ?thesis using idne by simp
  next
    case (Some a)
    then have la: "lastId = Some a" and ane: "a \<noteq> []"
      by (auto split: option.splits if_splits)
    let ?old = "filter (\<lambda>d. a < doc_id d) ?recs"
    from page Some have snap: "snapshot = take pageSize ?old"
      by (simp add: getDocs_page_def pending_def split: if_splits)
    with ne have "?L \<in> set ?old"
      by (metis in_set_takeD last_in_set)
    then have aL: "a < doc_id ?L" by simp
    have "?new = filter (\<lambda>d. doc_id ?L < doc_id d) ?old"
      using aL by (auto intro!: filter_cong)
    moreover have "length (filter (\<lambda>d. doc_id ?L < doc_id d) ?old) < length ?old"
      using \<open>?L \<in> set ?old\<close> by (intro length_filter_less[of ?L]) simp_all
    ultimately show ?thesis using la ane idne by simp
  qed
qed

definition fetchAllRecords ::
  "'t::minus world \<Rightarrow> string \<Rightarrow> nat \<Rightarrow> error + ((EncDoc list \<times> 't) \<times> 't world)" where
  "fetchAllRecords w ds pageSize =
     (let (start, w1) = now w
      in case fetchAll_loop w1 ds pageSize None [] of
           Inl e \<Rightarrow> Inl e
         | Inr docs \<Rightarrow> let (t, w2) = now w1 in Inr ((docs, t - start), w2))"

text \<open>
  The body of the loop over the selected modes in \<^verbatim>\<open>runBenchmark\<close>, one function for
  each branch. \<open>ek\<close> and \<open>ik\<close> are the derived encryption and index keys.
\<close>

definition cappedNote :: "'j platform \<Rightarrow> nat \<Rightarrow> string" where
  "cappedNote P totalCount =
     ''Fetched first '' @ toLocaleString P MAX_RESULT_FETCH @ '' of ''
       @ toLocaleString P totalCount @ '' matches due to synthetic data repetition.''"

definition index_result ::
  "PersonRecord platform \<Rightarrow> 't::{plus,minus,zero} world \<Rightarrow> string \<Rightarrow> CryptoKey \<Rightarrow> Mode
     \<Rightarrow> 't \<Rightarrow> string list option \<Rightarrow> error + ('t BenchmarkResult \<times> 't world)" where
  "index_result P w ds ek m indexMs' bucket =
     (let recordIds = (case bucket of None \<Rightarrow> [] | Some ids \<Rightarrow> ids);
          totalCount = length recordIds;
          cappedIds = (if totalCount > MAX_RESULT_FETCH
                       then js_slice recordIds 0 (int MAX_RESULT_FETCH) else recordIds);
          note = (if totalCount > MAX_RESULT_FETCH
                  then Some (cappedNote P totalCount) else None)
      in case fetchRecordsByIds w ds cappedIds of
           Inl e \<Rightarrow> Inl e
         | Inr ((docs, fetchMs'), w1) \<Rightarrow>
        (case decryptRecords P w1 docs ek of
           Inl e \<Rightarrow> Inl e
         | Inr ((rs, decryptMs'), w2) \<Rightarrow>
             Inr (\<lparr>mode = m,
                   totalMs = indexMs' + fetchMs' + decryptMs',
                   breakdown = \<lparr>indexMs = indexMs', fetchMs = fetchMs',
                                decryptMs = decryptMs', scanMs = 0, cacheBuildMs = None\<rparr>,
                   resultCount = totalCount,
                   sampleNote = note,
                   hits = js_slice rs 0 (int MAX_HITS)\<rparr>, w2)))"

definition run_blindIndex ::
  "PersonRecord platform \<Rightarrow> 't::{plus,minus,zero} world \<Rightarrow> string \<Rightarrow> string
     \<Rightarrow> CryptoKey \<Rightarrow> CryptoKey \<Rightarrow> error + ('t BenchmarkResult \<times> 't world)" where
  "run_blindIndex P w ds normalizedQuery ek ik =
     (let (indexStart, w1) = now w
      in case computeToken P normalizedQuery ik of
           Inl e \<Rightarrow> Inl e
         | Inr token \<Rightarrow>
        (case getDoc_index w1 ds token of
           Inl e \<Rightarrow> Inl e
         | Inr indexDoc \<Rightarrow>
             let (t, w2) = now w1
             in index_result P w2 ds ek blindIndex (t - indexStart) indexDoc))"

definition run_plaintextIndex ::
  "PersonRecord platform \<Rightarrow> 't::{plus,minus,zero} world \<Rightarrow> string \<Rightarrow> string
     \<Rightarrow> CryptoKey \<Rightarrow> error + ('t BenchmarkResult \<times> 't world)" where
  "run_plaintextIndex P w ds normalizedQuery ek =
     (let (indexStart, w1) = now w;
          docId = encodePrefixDocId normalizedQuery
      in case getDoc_plaintextIndex w1 ds docId of
           Inl e \<Rightarrow> Inl e
         | Inr prefixDoc \<Rightarrow>
             let (t, w2) = now w1
             in index_result P w2 ds ek plaintextIndex (t - indexStart) prefixDoc)"

definition run_decryptScan ::
  "PersonRecord platform \<Rightarrow> 't::{plus,minus,zero} world \<Rightarrow> string \<Rightarrow> string
     \<Rightarrow> CryptoKey \<Rightarrow> error + ('t BenchmarkResult \<times> 't world)" where
  "run_decryptScan P w ds normalizedQuery ek =
     (case fetchAllRecords w ds FULL_SCAN_PAGE_SIZE of
        Inl e \<Rightarrow> Inl e
      | Inr ((docs, fetchMs'), w1) \<Rightarrow>
     (case decryptRecords P w1 docs ek of
        Inl e \<Rightarrow> Inl e
      | Inr ((rs, decryptMs'), w2) \<Rightarrow>
          let ((matches, scanMs'), w3) = scanRecords w2 rs normalizedQuery
          in Inr (\<lparr>mode = decryptScan,
                   totalMs = fetchMs' + decryptMs' + scanMs',
                   breakdown = \<lparr>indexMs = 0, fetchMs = fetchMs',
                                decryptMs = decryptMs', scanMs = scanMs', cacheBuildMs = None\<rparr>,
                   resultCount = length matches,
                   sampleNote = None,
                   hits = js_slice matches 0 (int MAX_HITS)\<rparr>, w3)))"

text \<open>
  The Client Cache branch. \<open>cold_build\<close> is the \<^verbatim>\<open>if (!cached)\<close> block and \<open>warm_read\<close>
  the \<^verbatim>\<open>else\<close> block: each returns the values of \<^verbatim>\<open>fetchMs\<close>, \<^verbatim>\<open>decryptMs\<close>,
  \<^verbatim>\<open>cacheBuildMs\<close>, \<^verbatim>\<open>records\<close> and \<^verbatim>\<open>sampleNote\<close> after the block.
\<close>

definition cold_build ::
  "PersonRecord platform \<Rightarrow> 't::minus world \<Rightarrow> string \<Rightarrow> CryptoKey
     \<Rightarrow> error + (('t \<times> 't \<times> 't option \<times> PersonRecord list \<times> string option) \<times> 't world)"
  where
  "cold_build P w ds ek =
     (let datasetSize = getDatasetSize ds;
          (cacheStart, w1) = now w
      in case fetchRecordPage w1 ds (min datasetSize CACHE_CAP) of
           Inl e \<Rightarrow> Inl e
         | Inr ((docs, fetched), w2) \<Rightarrow>
        (case decryptRecords P w2 docs ek of
           Inl e \<Rightarrow> Inl e
         | Inr ((decrypted, decMs), w3) \<Rightarrow>
             let (t, w4) = now w3;
                 cacheBuildMs' = t - cacheStart
             in case setCachedDataset w4
                       \<lparr>datasetId = ds, records = decrypted, builtAt = date_now w4,
                        recordCount = length decrypted, cap = CACHE_CAP,
                        buildMs = Some cacheBuildMs'\<rparr> of
                  Inl e \<Rightarrow> Inl e
                | Inr w5 \<Rightarrow>
                    Inr ((fetched, decMs, Some cacheBuildMs', decrypted,
                          if datasetSize > CACHE_CAP
                          then Some (''Cache capped at '' @ toLocaleString P CACHE_CAP
                                     @ '' records.'')
                          else None), w5)))"

definition warm_read ::
  "PersonRecord platform \<Rightarrow> string \<Rightarrow> 't::zero CachedDataset
     \<Rightarrow> 't \<times> 't \<times> 't option \<times> PersonRecord list \<times> string option" where
  "warm_read P ds c =
     (0, 0, buildMs c, records c,
      if getDatasetSize ds > recordCount c
      then Some (''Cache has '' @ toLocaleString P (recordCount c)
                 @ '' records from a larger dataset.'')
      else None)"

definition run_clientCache ::
  "PersonRecord platform \<Rightarrow> 't::{plus,minus,zero} world \<Rightarrow> string \<Rightarrow> string
     \<Rightarrow> CryptoKey \<Rightarrow> error + ('t BenchmarkResult \<times> 't world)" where
  "run_clientCache P w ds normalizedQuery ek =
     (let (cacheReadStart, w1) = now w;
          cached = getCachedDataset w1 ds;
          (t1, w2) = now w1;
          cacheReadMs = t1 - cacheReadStart
      in case (case cached of
                 None \<Rightarrow> cold_build P w2 ds ek
               | Some c \<Rightarrow> Inr (warm_read P ds c, w2)) of
           Inl e \<Rightarrow> Inl e
         | Inr ((fetchMs0, decryptMs', cacheBuildMs', rs, note), w3) \<Rightarrow>
             let (scanStart, w4) = now w3;
                 matches = searchCache rs normalizedQuery;
                 (t2, w5) = now w4;
                 scanMs' = t2 - scanStart;
                 fetchMs' = (if cached \<noteq> None then cacheReadMs else fetchMs0);
                 totalMs' = (if cached \<noteq> None then cacheReadMs + scanMs'
                             else (case cacheBuildMs' of None \<Rightarrow> 0 | Some b \<Rightarrow> b) + scanMs')
             in Inr (\<lparr>mode = clientCache,
                      totalMs = totalMs',
                      breakdown = \<lparr>indexMs = 0, fetchMs = fetchMs',
                                   decryptMs = decryptMs', scanMs = scanMs',
                                   cacheBuildMs = cacheBuildMs'\<rparr>,
                      resultCount = length matches,
                      sampleNote = note,
                      hits = js_slice matches 0 (int MAX_HITS)\<rparr>, w5))"

fun run_mode ::
  "PersonRecord platform \<Rightarrow> 't::{plus,minus,zero} world \<Rightarrow> string \<Rightarrow> string
     \<Rightarrow> CryptoKey \<Rightarrow> CryptoKey \<Rightarrow> Mode \<Rightarrow> error + ('t BenchmarkResult \<times> 't world)" where
  "run_mode P w ds nq ek ik blindIndex = run_blindIndex P w ds nq ek ik"
| "run_mode P w ds nq ek ik plaintextIndex = run_plaintextIndex P w ds nq ek"
| "run_mode P w ds nq ek ik decryptScan = run_decryptScan P w ds nq ek"
| "run_mode P w ds nq ek ik clientCache = run_clientCache P w ds nq ek"

fun run_modes ::
  "PersonRecord platform \<Rightarrow> 't::{plus,minus,zero} world \<Rightarrow> string \<Rightarrow> string
     \<Rightarrow> CryptoKey \<Rightarrow> CryptoKey \<Rightarrow> Mode list \<Rightarrow> 't BenchmarkResult list
     \<Rightarrow> error + ('t BenchmarkResult list \<times> 't world)" where
  "run_modes P w ds nq ek ik [] results = Inr (results, w)"
| "run_modes P w ds nq ek ik (m # ms) results =
     (case run_mode P w ds nq ek ik m of
        Inl e \<Rightarrow> Inl e
      | Inr (r, w') \<Rightarrow> run_modes P w' ds nq ek ik ms (results @ [r]))"

definition runBenchmark ::
  "PersonRecord platform \<Rightarrow> 't::{plus,minus,zero} world \<Rightarrow> string \<Rightarrow> string \<Rightarrow> Mode list
     \<Rightarrow> string \<Rightarrow> bool \<Rightarrow> error + ('t BenchmarkResult list \<times> 't world)" where
  "runBenchmark P w ds rawQuery modes passphrase pqMode =
     (let normalizedQuery = normalize rawQuery
      in if normalizedQuery = [] then Inr ([], w)
         else
           let salt = getSalt P;
               kdf = (if pqMode then PQ_KDF else DEFAULT_KDF)
           in case deriveKeys P passphrase salt kdf of
                Inl e \<Rightarrow> Inl e
              | Inr keys \<Rightarrow>
                  run_modes P w ds normalizedQuery (encKey keys) (indexKey keys) modes [])"

section \<open>app/page.tsx: the order of the displayed results\<close>

definition MODE_ORDER :: "Mode list" where
  "MODE_ORDER = [blindIndex, decryptScan, clientCache, plaintextIndex]"

text \<open>
  \<^verbatim>\<open>new Map(results.map(result => [result.mode, result]))\<close>: a later entry replaces an
  earlier one with the same key.
\<close>

definition results_map :: "'t BenchmarkResult list \<Rightarrow> Mode \<Rightarrow> 't BenchmarkResult option" where
  "results_map results = foldl (\<lambda>mp r. mp(mode r := Some r)) (\<lambda>m. None) results"

text \<open>\<^verbatim>\<open>MODE_ORDER.map(mode => map.get(mode)).filter(Boolean)\<close>.\<close>

definition resultsByMode :: "'t BenchmarkResult list \<Rightarrow> 't BenchmarkResult list" where
  "resultsByMode results =
     map the (filter (\<lambda>x. x \<noteq> None) (map (results_map results) MODE_ORDER))"

section \<open>An earlier copy of lib/benchmark.ts\<close>

text \<open>
  The repository also holds an earlier copy of \<^verbatim>\<open>lib/benchmark.ts\<close>. The page imports the
  file modelled above; the copy differs from it in three branches of \<^verbatim>\<open>runBenchmark\<close>, of
  which two are modelled here, with the prefix \<open>legacy\<close>, to state the difference:
  \<^item> the two index modes have no \<^verbatim>\<open>MAX_RESULT_FETCH\<close>: they fetch every id of the bucket,
    report \<^verbatim>\<open>records.length\<close> as \<open>resultCount\<close> and never set a \<open>sampleNote\<close>;
  \<^item> Decrypt-and-Scan reads one page of \<open>sampleSize\<close> records (the whole dataset up to
    1000 records, 2000 records otherwise) and attaches a note;
  \<^item> a warm Client Cache run leaves \<open>fetchMs\<close> at 0 and reports \<open>totalMs = scanMs\<close>.
\<close>

definition legacy_index_result ::
  "PersonRecord platform \<Rightarrow> 't::{plus,minus,zero} world \<Rightarrow> string \<Rightarrow> CryptoKey \<Rightarrow> Mode
     \<Rightarrow> 't \<Rightarrow> string list option \<Rightarrow> error + ('t BenchmarkResult \<times> 't world)" where
  "legacy_index_result P w ds ek m indexMs' bucket =
     (let recordIds = (case bucket of None \<Rightarrow> [] | Some ids \<Rightarrow> ids)
      in case fetchRecordsByIds w ds recordIds of
           Inl e \<Rightarrow> Inl e
         | Inr ((docs, fetchMs'), w1) \<Rightarrow>
        (case decryptRecords P w1 docs ek of
           Inl e \<Rightarrow> Inl e
         | Inr ((rs, decryptMs'), w2) \<Rightarrow>
             Inr (\<lparr>mode = m,
                   totalMs = indexMs' + fetchMs' + decryptMs',
                   breakdown = \<lparr>indexMs = indexMs', fetchMs = fetchMs',
                                decryptMs = decryptMs', scanMs = 0, cacheBuildMs = None\<rparr>,
                   resultCount = length rs,
                   sampleNote = None,
                   hits = js_slice rs 0 (int MAX_HITS)\<rparr>, w2)))"

definition buildSampleNote :: "'j platform \<Rightarrow> nat \<Rightarrow> nat \<Rightarrow> string option" where
  "buildSampleNote P sampleSize datasetSize =
     (if sampleSize \<ge> datasetSize then None
      else Some (''Sampled first '' @ toLocaleString P sampleSize @ '' of ~''
                 @ toLocaleString P datasetSize @ '' records.''))"

definition legacy_sampleSize :: "string \<Rightarrow> nat" where
  "legacy_sampleSize ds = (if getDatasetSize ds \<le> 1000 then getDatasetSize ds else 2000)"

definition legacy_run_decryptScan ::
  "PersonRecord platform \<Rightarrow> 't::{plus,minus,zero} world \<Rightarrow> string \<Rightarrow> string
     \<Rightarrow> CryptoKey \<Rightarrow> error + ('t BenchmarkResult \<times> 't world)" where
  "legacy_run_decryptScan P w ds normalizedQuery ek =
     (let datasetSize = getDatasetSize ds;
          sampleSize = legacy_sampleSize ds;
          nt = (if datasetSize \<ge> 100000
                then Some (''Sampled first '' @ toLocaleString P sampleSize @ '' of ~''
                           @ toLocaleString P datasetSize
                           @ '' records. Full scan disabled at this size.'')
                else buildSampleNote P sampleSize datasetSize)
      in case fetchRecordPage w ds sampleSize of
           Inl e \<Rightarrow> Inl e
         | Inr ((docs, fetchMs'), w1) \<Rightarrow>
        (case decryptRecords P w1 docs ek of
           Inl e \<Rightarrow> Inl e
         | Inr ((rs, decryptMs'), w2) \<Rightarrow>
             let ((matches, scanMs'), w3) = scanRecords w2 rs normalizedQuery
             in Inr (\<lparr>mode = decryptScan,
                      totalMs = fetchMs' + decryptMs' + scanMs',
                      breakdown = \<lparr>indexMs = 0, fetchMs = fetchMs',
                                   decryptMs = decryptMs', scanMs = scanMs',
                                   cacheBuildMs = None\<rparr>,
                      resultCount = length matches,
                      sampleNote = nt,
                      hits = js_slice matches 0 (int MAX_HITS)\<rparr>, w3)))"

section \<open>Concrete inputs\<close>

text \<open>
  A small platform and a small world on which the functions above can be run. The
  platform is a toy one (it stands for no real cipher): base64 and UTF-8 are the identity
  on Latin-1 text, "encryption" appends the byte of \<open>!\<close> and "decryption" checks and
  removes it, the derived bits are the bytes 0, 1, 2, ..., the HMAC of a message is the
  message, and a person is serialized as \<open>name|email\<close>. Time is an integer number of
  milliseconds.
\<close>

definition demo_platform :: "('j \<Rightarrow> string) \<Rightarrow> (string \<Rightarrow> 'j option) \<Rightarrow> 'j platform" where
  "demo_platform stringify parse =
     \<lparr>utf8_encode = map charCode_byte,
      utf8_decode = map fromCharCode,
      has_Buffer = True,
      buffer_to_base64 = map fromCharCode,
      buffer_from_base64 = map charCode_byte,
      btoa = (\<lambda>s. s),
      atob = Some,
      pbkdf2_bits = (\<lambda>h pw salt iters len. Some (map of_nat [0 ..< len div 8])),
      aes_gcm_encrypt = (\<lambda>k n p. Some (p @ [charCode_byte CHR ''!''])),
      aes_gcm_decrypt = (\<lambda>k n c. if c \<noteq> [] \<and> last c = charCode_byte CHR ''!''
                                 then Some (butlast c) else None),
      hmac_sign = (\<lambda>h k d. d),
      json_stringify = stringify,
      json_parse = parse,
      env_salt = None,
      toLocaleString = (\<lambda>n. replicate n CHR ''I'')\<rparr>"

definition demo_stringify :: "PersonRecord \<Rightarrow> string" where
  "demo_stringify r = name r @ ''|'' @ email r"

definition demo_parse :: "string \<Rightarrow> PersonRecord option" where
  "demo_parse s =
     (if CHR ''|'' \<in> set s
      then Some \<lparr>pid = [], name = takeWhile (\<lambda>c. c \<noteq> CHR ''|'') s,
                 email = tl (dropWhile (\<lambda>c. c \<noteq> CHR ''|'') s), city = [], company = []\<rparr>
      else None)"

definition demo_P :: "PersonRecord platform" where
  "demo_P = demo_platform demo_stringify demo_parse"

definition demo_text_P :: "string platform" where
  "demo_text_P = demo_platform (\<lambda>s. s) Some"

definition demo_docs :: "EncDoc list" where
  "demo_docs =
     [\<lparr>doc_id = ''r1'', doc_ct = ''Ann|ann@x.org!'', doc_iv = ''n1''\<rparr>,
      \<lparr>doc_id = ''r2'', doc_ct = ''Anna|anna@x.org!'', doc_iv = ''n2''\<rparr>,
      \<lparr>doc_id = ''r3'', doc_ct = ''Bob|bob@x.org!'', doc_iv = ''n3''\<rparr>]"

text \<open>The \<open>k\<close>-th reading of the clock is \<open>k\<^sup>2\<close>: every phase takes a different time.\<close>

definition demo_clock :: "nat \<Rightarrow> int" where
  "demo_clock k = int (k * k)"

definition demo_world :: "int world" where
  "demo_world =
     \<lparr>store_online = True,
      store_records = (\<lambda>ds. if ds = ''people-1k'' then demo_docs else []),
      store_index = (\<lambda>ds token. if ds = ''people-1k'' \<and> token = ''an''
                                 then Some [''r1'', ''r2''] else None),
      store_plaintextIndex = (\<lambda>ds p. if ds = ''people-1k'' \<and> p = ''an''
                                 then Some [''r1'', ''r2''] else None),
      store_reads = [],
      cache_online = True,
      cache_db = (\<lambda>ds. None),
      clock = demo_clock,
      ticks = 0,
      date_now = 0\<rparr>"

text \<open>
  A clock on which nothing but the phases takes time: the fetch of a cold Client Cache
  run lasts from 0 to 7, its decryption from 7 to 18 and its scan from 18 to 20.
\<close>

definition steady_clock :: "nat \<Rightarrow> int" where
  "steady_clock k = (if k < 4 then 0 else if k < 6 then 7 else if k < 9 then 18 else 20)"

definition steady_world :: "int world" where
  "steady_world = demo_world\<lparr>clock := steady_clock\<rparr>"

text \<open>A bucket of 75 different ids, of which the store holds the first three.\<close>

definition bucket75 :: "string list" where
  "bucket75 =
     [''r1'', ''r2'', ''r3'']
     @ concat (map (\<lambda>a. map (\<lambda>b. [a, b]) ''012345678'') ''stuvwxyz'')"

definition big_bucket_world :: "int world" where
  "big_bucket_world =
     demo_world\<lparr>store_index := (\<lambda>ds token. if token = ''an'' then Some bucket75 else None),
                store_plaintextIndex := (\<lambda>ds p. if p = ''an'' then Some bucket75 else None)\<rparr>"

definition demo_key :: CryptoKey where
  "demo_key = \<lparr>algorithm = AES_GCM, raw = replicate 32 2, extractable = False,
               usages = [UseEncrypt, UseDecrypt]\<rparr>"

definition demo_index_key :: CryptoKey where
  "demo_index_key = \<lparr>algorithm = HMAC SHA_256, raw = replicate 32 2, extractable = False,
                     usages = [UseSign]\<rparr>"

text \<open>The results and the final world of a run that returned (nothing for a failed run).\<close>

definition results_of :: "error + ('a list \<times> 'w) \<Rightarrow> 'a list" where
  "results_of x = (case x of Inl e \<Rightarrow> [] | Inr (rs, w) \<Rightarrow> rs)"

definition world_after :: "'w \<Rightarrow> error + ('a \<times> 'w) \<Rightarrow> 'w" where
  "world_after w x = (case x of Inl e \<Rightarrow> w | Inr (rs, w') \<Rightarrow> w')"

declare chunk_loop.simps [code]

section \<open>Properties of chunk\<close>

lemma js_slice_window:
  assumes "0 \<le> i" "i < int (length xs)" "1 \<le> sz"
  shows "js_slice xs i (i + sz) = take (nat sz) (drop (nat i) xs)"
proof -
  have "take (nat (min (i + sz) (int (length xs)) - i)) (drop (nat i) xs)
        = take (nat sz) (drop (nat i) xs)"
  proof (cases "i + sz \<le> int (length xs)")
    case True
    then show ?thesis by (simp add: min_def)
  next
    case False
    with assms have "length (drop (nat i) xs) \<le> nat (int (length xs) - i)"
      and "length (drop (nat i) xs) \<le> nat sz" by auto
    with False show ?thesis by (simp add: min_def)
  qed
  with assms show ?thesis by (simp add: js_slice_def Let_def)
qed

text \<open>With a positive size the loop returns: the measure is the distance of \<open>i\<close> to the end.\<close>

lemma chunk_loop_returns:
  assumes "1 \<le> sz" "0 \<le> i"
  shows "\<exists>gs. chunk_loop items sz i out = Some (out @ gs)
              \<and> concat gs = drop (nat i) items
              \<and> list_all (\<lambda>g. g \<noteq> [] \<and> int (length g) \<le> sz) gs"
  using assms(2)
proof (induction "nat (int (length items) - i)" arbitrary: i out rule: less_induct)
  case less
  show ?case
  proof (cases "i < int (length items)")
    case False
    then show ?thesis using less.prems
      by (subst chunk_loop.simps) simp
  next
    case True
    let ?g = "js_slice items i (i + sz)"
    have g: "?g = take (nat sz) (drop (nat i) items)"
      using js_slice_window[OF less.prems True assms(1)] .
    have "nat (int (length items) - (i + sz)) < nat (int (length items) - i)"
      using True assms(1) by simp
    moreover have "0 \<le> i + sz" using less.prems assms(1) by simp
    ultimately obtain gs where
      run: "chunk_loop items sz (i + sz) (out @ [?g]) = Some ((out @ [?g]) @ gs)"
      and cat: "concat gs = drop (nat (i + sz)) items"
      and all: "list_all (\<lambda>g. g \<noteq> [] \<and> int (length g) \<le> sz) gs"
      using less.hyps[of "i + sz" "out @ [?g]"] by blast
    have "chunk_loop items sz i out = Some (out @ (?g # gs))"
      using True run by (subst chunk_loop.simps) simp
    moreover have "concat (?g # gs) = drop (nat i) items"
    proof -
      have "nat (i + sz) = nat sz + nat i" using less.prems assms(1) by simp
      then have "drop (nat (i + sz)) items = drop (nat sz) (drop (nat i) items)"
        by simp
      then have "concat gs = drop (nat sz) (drop (nat i) items)"
        using cat by simp
      then show ?thesis using g by (simp only: concat.simps append_take_drop_id)
    qed
    moreover have "?g \<noteq> [] \<and> int (length ?g) \<le> sz"
      using g True less.prems assms(1) by auto
    ultimately show ?thesis using all by (intro exI[of _ "?g # gs"]) simp
  qed
qed

text \<open>
  With a size of 0 or less the counter never passes the length of a non-empty array:
  no run of the loop returns.
\<close>

lemma chunk_loop_diverges:
  "chunk_loop items sz i out = Some r \<Longrightarrow> \<not> (sz \<le> 0 \<and> i \<le> 0 \<and> items \<noteq> [])"
proof (induction rule: chunk_loop.raw_induct[rotated 1, consumes 1])
  case (1 chunk_loop items sz i out r)
  show ?case
  proof (cases "i < int (length items)")
    case True
    with 1 have "\<not> (sz \<le> 0 \<and> i + sz \<le> 0 \<and> items \<noteq> [])" by simp
    with True show ?thesis by auto
  next
    case False
    then show ?thesis by (cases items) auto
  qed
qed

lemma chunk_returns:
  assumes "1 \<le> sz"
  shows "\<exists>gs. chunk items sz = Some gs \<and> concat gs = items
              \<and> list_all (\<lambda>g. g \<noteq> [] \<and> int (length g) \<le> sz) gs"
  using chunk_loop_returns[OF assms, of 0 items "[]"] by (simp add: chunk_def)

lemma chunk_diverges:
  assumes "sz \<le> 0" "items \<noteq> []"
  shows "chunk items sz = None"
proof (cases "chunk items sz")
  case None
  then show ?thesis .
next
  case (Some r)
  then have "chunk_loop items sz 0 [] = Some r" by (simp add: chunk_def)
  from chunk_loop_diverges[OF this] assms show ?thesis by simp
qed

text \<open>
  Claim C10. For every array and every chunk size \<open>n \<ge> 1\<close>, \<^verbatim>\<open>chunk(items, n)\<close> returns, and
  its result is a list of consecutive groups (their concatenation is \<open>items\<close>), each
  non-empty and of length at most \<open>n\<close>. The bound on \<open>n\<close> is needed: for \<open>n \<le> 0\<close> and a
  non-empty array the loop does not return.
\<close>

theorem chunk_terminates_and_partitions:
  "(1 \<le> n \<longrightarrow>
      (\<exists>gs. chunk items n = Some gs \<and> concat gs = items
            \<and> list_all (\<lambda>g. g \<noteq> [] \<and> int (length g) \<le> n) gs))
   \<and> (n \<le> 0 \<and> items \<noteq> [] \<longrightarrow> chunk items n = None)"
proof (intro conjI impI)
  assume "1 \<le> n"
  then show "\<exists>gs. chunk items n = Some gs \<and> concat gs = items
                \<and> list_all (\<lambda>g. g \<noteq> [] \<and> int (length g) \<le> n) gs"
    by (rule chunk_returns)
next
  assume "n \<le> 0 \<and> items \<noteq> []"
  then show "chunk items n = None"
    using chunk_diverges[of n items] by simp
qed

theorem chunk_terminates_and_partitions_witness:
  "(1::int) \<le> 2
   \<and> (\<exists>gs. chunk [1, 2, 3 :: nat] 2 = Some gs \<and> concat gs = [1, 2, 3]
          \<and> list_all (\<lambda>g. g \<noteq> [] \<and> int (length g) \<le> 2) gs)
   \<and> (0::int) \<le> 0 \<and> [7 :: nat] \<noteq> [] \<and> chunk [7 :: nat] 0 = None"
  using chunk_terminates_and_partitions[of 2 "[1, 2, 3 :: nat]"]
        chunk_terminates_and_partitions[of 0 "[7 :: nat]"]
  by simp

section \<open>Properties of prefixes\<close>

lemma prefixes_loop_eq:
  assumes "1 \<le> i" "lim \<le> int (length norm)"
  shows "prefixes_loop norm lim i out
         = out @ map (\<lambda>k. take k norm) [nat i ..< Suc (nat lim)]"
  using assms
proof (induction norm lim i out rule: prefixes_loop.induct)
  case (1 norm lim i out)
  show ?case
  proof (cases "i \<le> lim")
    case False
    with 1(2) have "[nat i ..< Suc (nat lim)] = []" by simp
    with False show ?thesis by simp
  next
    case True
    have sl: "js_slice norm 0 i = take (nat i) norm"
      using 1(2,3) True by (simp add: js_slice_def Let_def min_def)
    have "nat i < Suc (nat lim)" and "Suc (nat i) = nat (i + 1)"
      using True 1(2) by simp_all
    then have "[nat i ..< Suc (nat lim)] = nat i # [nat (i + 1) ..< Suc (nat lim)]"
      by (simp only: upt_conv_Cons)
    moreover have "prefixes_loop norm lim i out
                   = prefixes_loop norm lim (i + 1) (out @ [js_slice norm 0 i])"
      using True by simp
    ultimately show ?thesis
      using 1(1)[OF True] 1(2,3) sl by simp
  qed
qed

lemma prefixes_eq:
  "prefixes val maxLen
     = map (\<lambda>k. take k (normalize val))
           [1 ..< Suc (nat (min maxLen (int (length (normalize val)))))]"
  using prefixes_loop_eq[of 1 "min maxLen (int (length (normalize val)))" "normalize val" "[]"]
  by (simp add: prefixes_def Let_def)

text \<open>
  Claim C9. For every text and every \<open>maxLen\<close>, \<^verbatim>\<open>prefixes(text, maxLen)\<close> is the list of
  the prefixes of the normalized text of length 1, 2, ... up to the smaller of \<open>maxLen\<close>
  and the length of the normalized text (\<^verbatim>\<open>norm.length\<close> in the source), both ends
  included, in this order. With the default argument \<open>maxLen\<close> is 20. The bound is the
  length of the text after normalization, the only length the source reads; nothing is
  stated about the length of the text before normalization.
\<close>

theorem prefixes_are_normalized_prefixes:
  "prefixes val maxLen
     = map (\<lambda>k. take k (normalize val))
           [1 ..< Suc (nat (min maxLen (int (length (normalize val)))))]
   \<and> prefixes_default val
     = map (\<lambda>k. take k (normalize val))
           [1 ..< Suc (min 20 (length (normalize val)))]"
proof -
  have "nat (min 20 (int (length (normalize val)))) = min 20 (length (normalize val))"
    by simp
  then show ?thesis
    using prefixes_eq[of val maxLen] prefixes_eq[of val 20]
    by (simp only: prefixes_default_def)
qed


section \<open>Evaluation on the concrete inputs\<close>

text \<open>
  The byte and character conversions are inverse to each other, so the concrete runs can
  be evaluated without computing a single character code.
\<close>

lemma fromCharCode_charCode_byte [simp]: "fromCharCode (charCode_byte c) = c"
  by (simp add: fromCharCode_def charCode_byte_def unat_of_nat)

lemma charCode_byte_fromCharCode [simp]: "charCode_byte (fromCharCode b) = b"
proof -
  have "unat b < 256" using unsigned_less[of b] by simp
  then show ?thesis by (simp add: fromCharCode_def charCode_byte_def)
qed

lemma charCode_byte_eq [simp]: "(charCode_byte c = charCode_byte d) = (c = d)"
  by (metis fromCharCode_charCode_byte)

text \<open>
  The defining equations of the model, and congruence rules that make the simplifier
  evaluate a scrutinee before it looks at the branches.
\<close>

lemmas model_defs =
  runBenchmark_def run_blindIndex_def run_plaintextIndex_def run_decryptScan_def
  run_clientCache_def cold_build_def warm_read_def index_result_def cappedNote_def
  fetchAllRecords_def fetchRecordsByIds_def fetchRecordPage_def decryptRecords_def pending_def
  scanRecords_def searchCache_def matchesQuery_def startsWith_def
  getCachedDataset_def setCachedDataset_def
  getDocs_page_def getDocs_in_def getDoc_index_def getDoc_plaintextIndex_def now_def
  getDatasetSize_def CACHE_CAP_def MAX_HITS_def FULL_SCAN_PAGE_SIZE_def MAX_RESULT_FETCH_def
  deriveKeys_def getSalt_def computeToken_def decryptJson_def encryptJson_def
  bytesToBase64Url_def bytesToBase64_def base64ToBytes_def encodePrefixDocId_def
  subtle_sign_def subtle_decrypt_def subtle_encrypt_def subtle_deriveBits_def importKey_raw_def
  DEFAULT_KDF_def PQ_KDF_def
  chunk_def js_slice_def
  demo_P_def demo_platform_def demo_parse_def demo_stringify_def demo_docs_def
  demo_world_def demo_clock_def results_of_def world_after_def demo_key_def demo_index_key_def

lemmas eval_congs =
  if_weak_cong let_weak_cong sum.case_cong_weak option.case_cong_weak
  prod.case_cong_weak list.case_cong_weak

lemma norms [simp]:
  "normalize ''an'' = ''an''" "normalize ''Ann'' = ''ann''" "normalize ''Anna'' = ''anna''"
  "normalize ''Bob'' = ''bob''" "normalize ''ann@x.org'' = ''ann@x.org''"
  "normalize ''anna@x.org'' = ''anna@x.org''" "normalize ''bob@x.org'' = ''bob@x.org''"
  by code_simp+



section \<open>The shape of the result of each mode\<close>

lemma index_result_shape:
  assumes "index_result P w ds ek m ims bucket = Inr (r, w')"
  shows "mode r = m \<and> totalMs r = indexMs (breakdown r) + fetchMs (breakdown r) + decryptMs (breakdown r)
         \<and> indexMs (breakdown r) = ims
         \<and> scanMs (breakdown r) = 0 \<and> cacheBuildMs (breakdown r) = None"
  using assms
  by (auto simp: index_result_def Let_def split: sum.splits prod.splits)

lemma run_blindIndex_shape:
  assumes "run_blindIndex P w ds nq ek ik = Inr (r, w')"
  shows "mode r = blindIndex \<and> totalMs r = indexMs (breakdown r) + fetchMs (breakdown r) + decryptMs (breakdown r)
         \<and> scanMs (breakdown r) = 0 \<and> cacheBuildMs (breakdown r) = None"
  using assms
  by (auto simp: run_blindIndex_def Let_def split: sum.splits prod.splits dest!: index_result_shape)

lemma run_plaintextIndex_shape:
  assumes "run_plaintextIndex P w ds nq ek = Inr (r, w')"
  shows "mode r = plaintextIndex \<and> totalMs r = indexMs (breakdown r) + fetchMs (breakdown r) + decryptMs (breakdown r)
         \<and> scanMs (breakdown r) = 0 \<and> cacheBuildMs (breakdown r) = None"
  using assms
  by (auto simp: run_plaintextIndex_def Let_def split: sum.splits prod.splits dest!: index_result_shape)

lemma run_decryptScan_shape:
  assumes "run_decryptScan P w ds nq ek = Inr (r, w')"
  shows "mode r = decryptScan \<and> totalMs r = fetchMs (breakdown r) + decryptMs (breakdown r) + scanMs (breakdown r)
         \<and> indexMs (breakdown r) = 0 \<and> cacheBuildMs (breakdown r) = None"
  using assms
  by (auto simp: run_decryptScan_def Let_def split: sum.splits prod.splits)

lemma cold_build_shape:
  assumes "cold_build P w ds ek = Inr ((f, d, b, rs, note), w')"
  shows "\<exists>c. b = Some c"
  using assms
  by (auto simp: cold_build_def Let_def split: sum.splits prod.splits)

lemma run_clientCache_cold_shape:
  assumes "run_clientCache P w ds nq ek = Inr (r, w')"
    and "getCachedDataset w ds = None"
  shows "mode r = clientCache \<and> indexMs (breakdown r) = 0
         \<and> (\<exists>c. cacheBuildMs (breakdown r) = Some c \<and> totalMs r = c + scanMs (breakdown r))"
  using assms
  by (auto simp: run_clientCache_def Let_def now_def getCachedDataset_def
           split: sum.splits prod.splits if_splits dest!: cold_build_shape)

lemma run_clientCache_warm_shape:
  assumes "run_clientCache P w ds nq ek = Inr (r, w')"
    and "getCachedDataset w ds = Some c"
  shows "mode r = clientCache \<and> indexMs (breakdown r) = 0
         \<and> decryptMs (breakdown r) = 0
         \<and> fetchMs (breakdown r) = clock w (Suc (ticks w)) - clock w (ticks w)
         \<and> totalMs r = fetchMs (breakdown r) + scanMs (breakdown r)
         \<and> cacheBuildMs (breakdown r) = buildMs c"
  using assms
  by (auto simp: run_clientCache_def Let_def now_def getCachedDataset_def warm_read_def
           split: sum.splits prod.splits if_splits)



section \<open>The loop over the selected modes\<close>

lemma run_mode_shape:
  assumes "run_mode P w ds nq ek ik m = Inr (r, w')"
  shows "mode r = m"
  using assms
  by (cases m)
     (auto dest: run_blindIndex_shape run_plaintextIndex_shape run_decryptScan_shape
           simp: run_clientCache_def Let_def split: sum.splits prod.splits)

lemma run_modes_all:
  assumes step: "\<And>w m r w'. run_mode P w ds nq ek ik m = Inr (r, w') \<Longrightarrow> Q m r"
    and run: "run_modes P w ds nq ek ik ms acc = Inr (rs, w')"
  shows "\<exists>new. rs = acc @ new \<and> list_all2 Q ms new"
  using run
proof (induction ms arbitrary: w acc)
  case Nil
  then show ?case by simp
next
  case (Cons m ms)
  from Cons.prems obtain r w1 where
    one: "run_mode P w ds nq ek ik m = Inr (r, w1)"
    and rest: "run_modes P w1 ds nq ek ik ms (acc @ [r]) = Inr (rs, w')"
    by (auto split: sum.splits)
  from Cons.IH[OF rest] obtain new where "rs = (acc @ [r]) @ new" "list_all2 Q ms new"
    by blast
  with step[OF one] show ?case by (intro exI[of _ "r # new"]) simp
qed

lemma runBenchmark_Inr:
  assumes "runBenchmark P w ds q modes pass pq = Inr (rs, w')" and "normalize q \<noteq> []"
  shows "\<exists>keys. deriveKeys P pass (getSalt P) (if pq then PQ_KDF else DEFAULT_KDF) = Inr keys
           \<and> run_modes P w ds (normalize q) (encKey keys) (indexKey keys) modes [] = Inr (rs, w')"
proof (cases "deriveKeys P pass (getSalt P) (if pq then PQ_KDF else DEFAULT_KDF)")
  case (Inl e)
  with assms show ?thesis by (simp add: runBenchmark_def Let_def)
next
  case (Inr keys)
  with assms show ?thesis by (simp add: runBenchmark_def Let_def)
qed

lemma runBenchmark_all:
  assumes step: "\<And>w m r w' ek ik. run_mode P w ds (normalize q) ek ik m = Inr (r, w') \<Longrightarrow> Q m r"
    and run: "runBenchmark P w ds q modes pass pq = Inr (rs, w')"
    and ne: "normalize q \<noteq> []"
  shows "list_all2 Q modes rs"
proof -
  from runBenchmark_Inr[OF run ne] obtain keys :: DerivedKeys where
    "run_modes P w ds (normalize q) (encKey keys) (indexKey keys) modes [] = Inr (rs, w')"
    by blast
  from run_modes_all[of P ds "normalize q" "encKey keys" "indexKey keys" Q, OF step this]
  show ?thesis by simp
qed

section \<open>The empty query\<close>

text \<open>
  Claim C6. When the query normalizes to the empty string, \<^verbatim>\<open>runBenchmark\<close> returns the
  empty list of results, whatever modes were asked for, and raises nothing: no key is
  derived, the store and the cache are not touched (the world is unchanged), so the call
  succeeds even with the store down.
\<close>

theorem empty_query_short_circuit:
  assumes "normalize q = []"
  shows "runBenchmark P w ds q modes pass pq = Inr ([], w)"
  using assms by (simp add: runBenchmark_def)

theorem empty_query_short_circuit_witness:
  "normalize ''   '' = []
   \<and> runBenchmark demo_P (demo_world\<lparr>store_online := False\<rparr>) ''people-1k'' ''   ''
        [blindIndex, decryptScan] ''pw'' False
     = Inr ([], demo_world\<lparr>store_online := False\<rparr>)"
proof -
  have h: "normalize ''   '' = []" by code_simp
  from h empty_query_short_circuit[OF h] show ?thesis by simp
qed


section \<open>The order of the results\<close>

lemma results_map_snoc:
  "results_map (rs @ [r]) = (results_map rs)(mode r := Some r)"
  by (simp add: results_map_def)

lemma results_map_defined:
  "(results_map rs m \<noteq> None) = (m \<in> mode ` set rs)"
  by (induction rs rule: rev_induct) (auto simp: results_map_snoc, simp add: results_map_def)

lemma results_map_mode:
  "results_map rs m = Some r \<Longrightarrow> mode r = m"
  by (induction rs rule: rev_induct)
     (auto simp: results_map_snoc results_map_def split: if_splits)

lemma resultsByMode_modes_gen:
  "map mode (map the (filter (\<lambda>x. x \<noteq> None) (map (results_map rs) ms)))
   = filter (\<lambda>m. m \<in> mode ` set rs) ms"
proof (induction ms)
  case Nil
  then show ?case by simp
next
  case (Cons m ms)
  show ?case
  proof (cases "results_map rs m")
    case None
    with results_map_defined[of rs m] Cons show ?thesis by simp
  next
    case (Some r)
    with results_map_defined[of rs m] results_map_mode[OF Some] Cons show ?thesis by simp
  qed
qed

lemma resultsByMode_modes:
  "map mode (resultsByMode rs) = filter (\<lambda>m. m \<in> mode ` set rs) MODE_ORDER"
  by (simp only: resultsByMode_def resultsByMode_modes_gen)

text \<open>
  Claim C2, as amended. \<^verbatim>\<open>runBenchmark\<close> returns one result for each listed mode, in the
  order in which the caller listed the modes. The fixed order
  \<^verbatim>\<open>MODE_ORDER\<close> is imposed afterwards, by \<^verbatim>\<open>resultsByMode\<close> of the page: what it shows is
  ordered by \<^verbatim>\<open>MODE_ORDER\<close> and depends only on which modes were selected.
\<close>

theorem results_follow_listed_order:
  assumes "runBenchmark P w ds q modes pass pq = Inr (rs, w')"
    and "normalize q \<noteq> []"
  shows "map mode rs = modes
         \<and> map mode (resultsByMode rs) = filter (\<lambda>m. m \<in> set modes) MODE_ORDER"
proof -
  have "list_all2 (\<lambda>m r. mode r = m) modes rs"
    using runBenchmark_all[of P ds q "\<lambda>m r. mode r = m", OF _ assms] run_mode_shape
    by blast
  then have m: "map mode rs = modes"
    by (induction modes rs rule: list_all2_induct) simp_all
  then have "mode ` set rs = set modes" by (metis set_map)
  with m resultsByMode_modes[of rs] show ?thesis by simp
qed

theorem results_follow_listed_order_witness:
  "normalize ''an'' \<noteq> []
   \<and> map mode (results_of (runBenchmark demo_P demo_world ''people-1k'' ''an''
                   [plaintextIndex, blindIndex] ''pw'' False))
     = [plaintextIndex, blindIndex]
   \<and> map mode (resultsByMode (results_of (runBenchmark demo_P demo_world ''people-1k'' ''an''
                   [plaintextIndex, blindIndex] ''pw'' False)))
     = [blindIndex, plaintextIndex]"
proof -
  let ?run = "runBenchmark demo_P demo_world ''people-1k'' ''an''
                [plaintextIndex, blindIndex] ''pw'' False"
  have ne: "normalize ''an'' \<noteq> []" by simp
  have "\<not> isl ?run"
    by (simp add: model_defs chunk_loop.simps Let_def cong: eval_congs)
  then obtain rs w' where run: "?run = Inr (rs, w')" by (cases ?run) auto
  have "filter (\<lambda>m. m \<in> set [plaintextIndex, blindIndex]) MODE_ORDER
        = [blindIndex, plaintextIndex]"
    by (simp add: MODE_ORDER_def)
  with results_follow_listed_order[OF run ne] ne run show ?thesis
    by (simp add: results_of_def)
qed

text \<open>
  Claim C2 as stated fails: the same two modes, listed in the two possible orders, come
  back in the two different orders, so no fixed order describes what \<^verbatim>\<open>runBenchmark\<close>
  returns.
\<close>

theorem listed_order_counterexample:
  "map mode (results_of (runBenchmark demo_P demo_world ''people-1k'' ''an''
                [plaintextIndex, blindIndex] ''pw'' False))
     = [plaintextIndex, blindIndex]
   \<and> map mode (results_of (runBenchmark demo_P demo_world ''people-1k'' ''an''
                [blindIndex, plaintextIndex] ''pw'' False))
     = [blindIndex, plaintextIndex]"
  by (simp add: model_defs chunk_loop.simps Let_def cong: eval_congs)


section \<open>The timing breakdown\<close>

lemma run_modes_append:
  "run_modes P w ds nq ek ik (ms1 @ ms2) acc
   = (case run_modes P w ds nq ek ik ms1 acc of
        Inl e \<Rightarrow> Inl e
      | Inr (rs1, w1) \<Rightarrow> run_modes P w1 ds nq ek ik ms2 rs1)"
proof (induction ms1 arbitrary: w acc)
  case Nil
  then show ?case by simp
next
  case (Cons m ms1)
  show ?case
  proof (cases "run_mode P w ds nq ek ik m")
    case (Inl e)
    then show ?thesis by simp
  next
    case (Inr p)
    obtain r w1 where p: "p = (r, w1)" by (cases p)
    with Inr Cons.IH[of w1 "acc @ [r]"] show ?thesis by simp
  qed
qed

lemma run_modes_length:
  assumes "run_modes P w ds nq ek ik ms acc = Inr (rs, w')"
  shows "\<exists>new. rs = acc @ new \<and> length new = length ms"
proof -
  from run_modes_all[of P ds nq ek ik "\<lambda>m r. True" w ms acc rs w', OF _ assms]
  obtain new where "rs = acc @ new" "list_all2 (\<lambda>m r. True) ms new" by blast
  then show ?thesis by (auto dest: list_all2_lengthD)
qed

lemma run_modes_nth:
  assumes run: "run_modes P w ds nq ek ik ms [] = Inr (rs, w')"
    and i: "i < length ms"
  shows "\<exists>wi wj. run_modes P w ds nq ek ik (take i ms) [] = Inr (take i rs, wi)
               \<and> run_mode P wi ds nq ek ik (ms ! i) = Inr (rs ! i, wj)"
proof -
  have split: "ms = take i ms @ (ms ! i # drop (Suc i) ms)"
    using i by (simp add: id_take_nth_drop)
  from run have "run_modes P w ds nq ek ik (take i ms @ (ms ! i # drop (Suc i) ms)) []
                 = Inr (rs, w')"
    using split by simp
  then obtain rs1 wi where
    first: "run_modes P w ds nq ek ik (take i ms) [] = Inr (rs1, wi)"
    and rest: "run_modes P wi ds nq ek ik (ms ! i # drop (Suc i) ms) rs1 = Inr (rs, w')"
    by (auto simp: run_modes_append split: sum.splits)
  from run_modes_length[OF first] i have len1: "length rs1 = i" by auto
  from rest obtain r wj where
    one: "run_mode P wi ds nq ek ik (ms ! i) = Inr (r, wj)"
    and tl: "run_modes P wj ds nq ek ik (drop (Suc i) ms) (rs1 @ [r]) = Inr (rs, w')"
    by (auto split: sum.splits)
  from run_modes_length[OF tl] obtain new where rs: "rs = (rs1 @ [r]) @ new" by blast
  from rs len1 have "take i rs = rs1" and "rs ! i = r"
    by (simp_all add: nth_append)
  with first one show ?thesis by blast
qed

text \<open>
  Claim C1, as amended. Let a run return the results \<open>rs\<close>, and let \<open>i\<close> be the position
  of one of them. The run of the first \<open>i\<close> listed modes alone returns the first \<open>i\<close>
  results and ends in a world \<open>wi\<close>: the world in which the mode at position \<open>i\<close>
  starts. The result at position \<open>i\<close> carries the mode listed at position \<open>i\<close>, and by
  that mode:
  \<^item> Blind Index and Plaintext Index: \<open>totalMs = indexMs + fetchMs + decryptMs\<close>, \<open>scanMs\<close>
    is 0, and \<open>cacheBuildMs\<close> is absent;
  \<^item> Decrypt-and-Scan: \<open>totalMs = fetchMs + decryptMs + scanMs\<close>, \<open>indexMs\<close> is 0, and
    \<open>cacheBuildMs\<close> is absent;
  \<^item> Client Cache, cold (the cache of \<open>wi\<close> holds no snapshot of the dataset): \<open>indexMs\<close> is
    0, \<open>cacheBuildMs\<close> is present, and \<open>totalMs = cacheBuildMs + scanMs\<close>; the build time
    spans the fetch and the decryption, which are reported but not added again;
  \<^item> Client Cache, warm (the cache of \<open>wi\<close> holds a snapshot \<open>c\<close> of the dataset):
    \<open>indexMs\<close> and \<open>decryptMs\<close> are 0, \<open>fetchMs\<close> is the time of the cache read (the
    difference of the first two clock readings of the mode),
    \<open>totalMs = fetchMs + scanMs\<close>, and \<open>cacheBuildMs\<close> is the build time stored in the
    snapshot.
  The sums are the sums the code computes, in its order, so they hold for every
  arithmetic on the time type, rounding or not.
\<close>

theorem totalMs_is_sum_of_phases:
  assumes "runBenchmark P w ds q modes pass pq = Inr (rs, w')"
    and "i < length rs"
  shows "\<exists>wi. runBenchmark P w ds q (take i modes) pass pq = Inr (take i rs, wi)
         \<and> mode (rs ! i) = modes ! i
         \<and> (mode (rs ! i) = blindIndex \<or> mode (rs ! i) = plaintextIndex \<longrightarrow>
              totalMs (rs ! i) = indexMs (breakdown (rs ! i)) + fetchMs (breakdown (rs ! i))
                                 + decryptMs (breakdown (rs ! i))
              \<and> scanMs (breakdown (rs ! i)) = 0
              \<and> cacheBuildMs (breakdown (rs ! i)) = None)
         \<and> (mode (rs ! i) = decryptScan \<longrightarrow>
              totalMs (rs ! i) = fetchMs (breakdown (rs ! i)) + decryptMs (breakdown (rs ! i))
                                 + scanMs (breakdown (rs ! i))
              \<and> indexMs (breakdown (rs ! i)) = 0
              \<and> cacheBuildMs (breakdown (rs ! i)) = None)
         \<and> (mode (rs ! i) = clientCache \<longrightarrow>
              indexMs (breakdown (rs ! i)) = 0
              \<and> (getCachedDataset wi ds = None \<longrightarrow>
                   (\<exists>b. cacheBuildMs (breakdown (rs ! i)) = Some b
                        \<and> totalMs (rs ! i) = b + scanMs (breakdown (rs ! i))))
              \<and> (\<forall>c. getCachedDataset wi ds = Some c \<longrightarrow>
                   decryptMs (breakdown (rs ! i)) = 0
                   \<and> fetchMs (breakdown (rs ! i)) = clock wi (Suc (ticks wi)) - clock wi (ticks wi)
                   \<and> totalMs (rs ! i) = fetchMs (breakdown (rs ! i)) + scanMs (breakdown (rs ! i))
                   \<and> cacheBuildMs (breakdown (rs ! i)) = buildMs c))"
proof -
  have ne: "normalize q \<noteq> []"
  proof
    assume "normalize q = []"
    with assms(1) have "rs = []" by (simp add: runBenchmark_def)
    with assms(2) show False by simp
  qed
  from runBenchmark_Inr[OF assms(1) ne] obtain keys :: DerivedKeys where
    dk: "deriveKeys P pass (getSalt P) (if pq then PQ_KDF else DEFAULT_KDF) = Inr keys"
    and rm: "run_modes P w ds (normalize q) (encKey keys) (indexKey keys) modes [] = Inr (rs, w')"
    by blast
  from run_modes_length[OF rm] assms(2) have i: "i < length modes" by auto
  from run_modes_nth[OF rm i] obtain wi wj where
    pre: "run_modes P w ds (normalize q) (encKey keys) (indexKey keys) (take i modes) []
          = Inr (take i rs, wi)"
    and one: "run_mode P wi ds (normalize q) (encKey keys) (indexKey keys) (modes ! i)
              = Inr (rs ! i, wj)"
    by blast
  have rb: "runBenchmark P w ds q (take i modes) pass pq = Inr (take i rs, wi)"
    using ne dk pre by (simp add: runBenchmark_def Let_def)
  have md: "mode (rs ! i) = modes ! i" by (rule run_mode_shape[OF one])
  have rest: "(mode (rs ! i) = blindIndex \<or> mode (rs ! i) = plaintextIndex \<longrightarrow>
              totalMs (rs ! i) = indexMs (breakdown (rs ! i)) + fetchMs (breakdown (rs ! i))
                                 + decryptMs (breakdown (rs ! i))
              \<and> scanMs (breakdown (rs ! i)) = 0
              \<and> cacheBuildMs (breakdown (rs ! i)) = None)
         \<and> (mode (rs ! i) = decryptScan \<longrightarrow>
              totalMs (rs ! i) = fetchMs (breakdown (rs ! i)) + decryptMs (breakdown (rs ! i))
                                 + scanMs (breakdown (rs ! i))
              \<and> indexMs (breakdown (rs ! i)) = 0
              \<and> cacheBuildMs (breakdown (rs ! i)) = None)
         \<and> (mode (rs ! i) = clientCache \<longrightarrow>
              indexMs (breakdown (rs ! i)) = 0
              \<and> (getCachedDataset wi ds = None \<longrightarrow>
                   (\<exists>b. cacheBuildMs (breakdown (rs ! i)) = Some b
                        \<and> totalMs (rs ! i) = b + scanMs (breakdown (rs ! i))))
              \<and> (\<forall>c. getCachedDataset wi ds = Some c \<longrightarrow>
                   decryptMs (breakdown (rs ! i)) = 0
                   \<and> fetchMs (breakdown (rs ! i)) = clock wi (Suc (ticks wi)) - clock wi (ticks wi)
                   \<and> totalMs (rs ! i) = fetchMs (breakdown (rs ! i)) + scanMs (breakdown (rs ! i))
                   \<and> cacheBuildMs (breakdown (rs ! i)) = buildMs c))"
  proof (cases "modes ! i")
    case blindIndex
    with one md run_blindIndex_shape[of P wi ds "normalize q" "encKey keys" "indexKey keys" "rs ! i" wj]
    show ?thesis by simp
  next
    case decryptScan
    with one md run_decryptScan_shape[of P wi ds "normalize q" "encKey keys" "rs ! i" wj]
    show ?thesis by simp
  next
    case plaintextIndex
    with one md run_plaintextIndex_shape[of P wi ds "normalize q" "encKey keys" "rs ! i" wj]
    show ?thesis by simp
  next
    case clientCache
    with one have rc: "run_clientCache P wi ds (normalize q) (encKey keys) = Inr (rs ! i, wj)"
      by simp
    show ?thesis
    proof (cases "getCachedDataset wi ds")
      case None
      from run_clientCache_cold_shape[OF rc None] None show ?thesis by simp
    next
      case (Some c)
      from run_clientCache_warm_shape[OF rc Some] Some show ?thesis by simp
    qed
  qed
  show ?thesis
    apply (rule exI[of _ wi])
    apply (rule conjI, rule rb)
    apply (rule conjI, rule md)
    apply (rule rest)
    done
qed


theorem totalMs_is_sum_of_phases_witness:
  "\<exists>rs w'.
     runBenchmark demo_P demo_world ''people-1k'' ''an''
        [blindIndex, decryptScan, clientCache, plaintextIndex, clientCache] ''pw'' False
       = Inr (rs, w')
   \<and> length rs = 5
   \<and> mode (rs ! 0) = blindIndex
   \<and> totalMs (rs ! 0) = indexMs (breakdown (rs ! 0)) + fetchMs (breakdown (rs ! 0))
                          + decryptMs (breakdown (rs ! 0))
   \<and> scanMs (breakdown (rs ! 0)) = 0 \<and> cacheBuildMs (breakdown (rs ! 0)) = None
   \<and> mode (rs ! 1) = decryptScan
   \<and> totalMs (rs ! 1) = fetchMs (breakdown (rs ! 1)) + decryptMs (breakdown (rs ! 1))
                          + scanMs (breakdown (rs ! 1))
   \<and> indexMs (breakdown (rs ! 1)) = 0 \<and> cacheBuildMs (breakdown (rs ! 1)) = None
   \<and> mode (rs ! 2) = clientCache
   \<and> (\<exists>wi. runBenchmark demo_P demo_world ''people-1k'' ''an''
                [blindIndex, decryptScan] ''pw'' False = Inr (take 2 rs, wi)
            \<and> getCachedDataset wi ''people-1k'' = None
            \<and> (\<exists>b. cacheBuildMs (breakdown (rs ! 2)) = Some b
                    \<and> totalMs (rs ! 2) = b + scanMs (breakdown (rs ! 2))))
   \<and> mode (rs ! 4) = clientCache
   \<and> (\<exists>wi c. runBenchmark demo_P demo_world ''people-1k'' ''an''
                [blindIndex, decryptScan, clientCache, plaintextIndex] ''pw'' False
                = Inr (take 4 rs, wi)
            \<and> getCachedDataset wi ''people-1k'' = Some c
            \<and> decryptMs (breakdown (rs ! 4)) = 0
            \<and> totalMs (rs ! 4) = fetchMs (breakdown (rs ! 4)) + scanMs (breakdown (rs ! 4))
            \<and> cacheBuildMs (breakdown (rs ! 4)) = buildMs c)"
proof -
  let ?ms = "[blindIndex, decryptScan, clientCache, plaintextIndex, clientCache]"
  let ?run = "\<lambda>ms. runBenchmark demo_P demo_world ''people-1k'' ''an'' ms ''pw'' False"
  have m: "map mode (results_of (?run ?ms)) = ?ms"
    by (simp add: model_defs chunk_loop.simps fetchAll_loop.simps Let_def cong: eval_congs)
  then have "\<not> isl (?run ?ms)" by (cases "?run ?ms") (auto simp: results_of_def)
  then obtain rs w' where run: "?run ?ms = Inr (rs, w')" by (cases "?run ?ms") auto
  from m run have modes: "map mode rs = ?ms" by (simp add: results_of_def)
  have "length (map mode rs) = 5" by (simp only: modes) simp
  then have len: "length rs = 5" by simp
  have lt: "0 < length rs" "1 < length rs" "2 < length rs" "4 < length rs"
    using len by simp_all
  have tk: "take 2 ?ms = [blindIndex, decryptScan]"
    "take 4 ?ms = [blindIndex, decryptScan, clientCache, plaintextIndex]"
    by simp_all
  have nth: "?ms ! 0 = blindIndex" "?ms ! 1 = decryptScan" "?ms ! 2 = clientCache"
    "?ms ! 4 = clientCache"
    by simp_all
  have cold: "getCachedDataset (world_after demo_world (?run [blindIndex, decryptScan]))
                ''people-1k'' = None"
    by (simp add: model_defs chunk_loop.simps fetchAll_loop.simps Let_def cong: eval_congs)
  have warm: "getCachedDataset
                (world_after demo_world (?run [blindIndex, decryptScan, clientCache, plaintextIndex]))
                ''people-1k'' \<noteq> None"
    by (simp add: model_defs chunk_loop.simps fetchAll_loop.simps Let_def cong: eval_congs)
  from totalMs_is_sum_of_phases[OF run lt(1)]
  have r0: "mode (rs ! 0) = blindIndex
     \<and> totalMs (rs ! 0) = indexMs (breakdown (rs ! 0)) + fetchMs (breakdown (rs ! 0))
                          + decryptMs (breakdown (rs ! 0))
     \<and> scanMs (breakdown (rs ! 0)) = 0 \<and> cacheBuildMs (breakdown (rs ! 0)) = None"
  proof (elim exE conjE)
    assume md: "mode (rs ! 0) = ?ms ! 0"
      and bb: "mode (rs ! 0) = blindIndex \<or> mode (rs ! 0) = plaintextIndex \<longrightarrow>
                 totalMs (rs ! 0) = indexMs (breakdown (rs ! 0)) + fetchMs (breakdown (rs ! 0))
                                    + decryptMs (breakdown (rs ! 0))
                 \<and> scanMs (breakdown (rs ! 0)) = 0
                 \<and> cacheBuildMs (breakdown (rs ! 0)) = None"
    from md have "mode (rs ! 0) = blindIndex" by (simp only: nth)
    with bb show ?thesis by blast
  qed
  from totalMs_is_sum_of_phases[OF run lt(2)]
  have r1: "mode (rs ! 1) = decryptScan
     \<and> totalMs (rs ! 1) = fetchMs (breakdown (rs ! 1)) + decryptMs (breakdown (rs ! 1))
                          + scanMs (breakdown (rs ! 1))
     \<and> indexMs (breakdown (rs ! 1)) = 0 \<and> cacheBuildMs (breakdown (rs ! 1)) = None"
  proof (elim exE conjE)
    assume md: "mode (rs ! 1) = ?ms ! 1"
      and bb: "mode (rs ! 1) = decryptScan \<longrightarrow>
                 totalMs (rs ! 1) = fetchMs (breakdown (rs ! 1)) + decryptMs (breakdown (rs ! 1))
                                    + scanMs (breakdown (rs ! 1))
                 \<and> indexMs (breakdown (rs ! 1)) = 0
                 \<and> cacheBuildMs (breakdown (rs ! 1)) = None"
    from md have "mode (rs ! 1) = decryptScan" by (simp only: nth)
    with bb show ?thesis by blast
  qed
  from totalMs_is_sum_of_phases[OF run lt(3)]
  have e2: "mode (rs ! 2) = clientCache
          \<and> (\<exists>wi. ?run [blindIndex, decryptScan] = Inr (take 2 rs, wi)
            \<and> getCachedDataset wi ''people-1k'' = None
            \<and> (\<exists>b. cacheBuildMs (breakdown (rs ! 2)) = Some b
                    \<and> totalMs (rs ! 2) = b + scanMs (breakdown (rs ! 2))))"
  proof (elim exE conjE)
    fix wi
    assume p: "?run (take 2 ?ms) = Inr (take 2 rs, wi)"
      and md: "mode (rs ! 2) = ?ms ! 2"
      and cc: "mode (rs ! 2) = clientCache \<longrightarrow>
                 indexMs (breakdown (rs ! 2)) = 0
                 \<and> (getCachedDataset wi ''people-1k'' = None \<longrightarrow>
                      (\<exists>b. cacheBuildMs (breakdown (rs ! 2)) = Some b
                           \<and> totalMs (rs ! 2) = b + scanMs (breakdown (rs ! 2))))
                 \<and> (\<forall>c. getCachedDataset wi ''people-1k'' = Some c \<longrightarrow>
                      decryptMs (breakdown (rs ! 2)) = 0
                      \<and> fetchMs (breakdown (rs ! 2)) = clock wi (Suc (ticks wi)) - clock wi (ticks wi)
                      \<and> totalMs (rs ! 2) = fetchMs (breakdown (rs ! 2)) + scanMs (breakdown (rs ! 2))
                      \<and> cacheBuildMs (breakdown (rs ! 2)) = buildMs c)"
    from md have m2: "mode (rs ! 2) = clientCache" by (simp only: nth)
    from p have p2: "?run [blindIndex, decryptScan] = Inr (take 2 rs, wi)" by (simp only: tk)
    with cold have n2: "getCachedDataset wi ''people-1k'' = None"
      by (simp only: world_after_def sum.case prod.case)
    from cc m2 n2 have "\<exists>b. cacheBuildMs (breakdown (rs ! 2)) = Some b
                           \<and> totalMs (rs ! 2) = b + scanMs (breakdown (rs ! 2))"
      by blast
    with m2 p2 n2 show ?thesis by blast
  qed
  from totalMs_is_sum_of_phases[OF run lt(4)]
  have e4: "mode (rs ! 4) = clientCache
          \<and> (\<exists>wi c. ?run [blindIndex, decryptScan, clientCache, plaintextIndex]
                = Inr (take 4 rs, wi)
            \<and> getCachedDataset wi ''people-1k'' = Some c
            \<and> decryptMs (breakdown (rs ! 4)) = 0
            \<and> totalMs (rs ! 4) = fetchMs (breakdown (rs ! 4)) + scanMs (breakdown (rs ! 4))
            \<and> cacheBuildMs (breakdown (rs ! 4)) = buildMs c)"
  proof (elim exE conjE)
    fix wi
    assume p: "?run (take 4 ?ms) = Inr (take 4 rs, wi)"
      and md: "mode (rs ! 4) = ?ms ! 4"
      and cc: "mode (rs ! 4) = clientCache \<longrightarrow>
                 indexMs (breakdown (rs ! 4)) = 0
                 \<and> (getCachedDataset wi ''people-1k'' = None \<longrightarrow>
                      (\<exists>b. cacheBuildMs (breakdown (rs ! 4)) = Some b
                           \<and> totalMs (rs ! 4) = b + scanMs (breakdown (rs ! 4))))
                 \<and> (\<forall>c. getCachedDataset wi ''people-1k'' = Some c \<longrightarrow>
                      decryptMs (breakdown (rs ! 4)) = 0
                      \<and> fetchMs (breakdown (rs ! 4)) = clock wi (Suc (ticks wi)) - clock wi (ticks wi)
                      \<and> totalMs (rs ! 4) = fetchMs (breakdown (rs ! 4)) + scanMs (breakdown (rs ! 4))
                      \<and> cacheBuildMs (breakdown (rs ! 4)) = buildMs c)"
    from md have m4: "mode (rs ! 4) = clientCache" by (simp only: nth)
    from p have p4: "?run [blindIndex, decryptScan, clientCache, plaintextIndex]
                     = Inr (take 4 rs, wi)" by (simp only: tk)
    with warm have "getCachedDataset wi ''people-1k'' \<noteq> None"
      by (simp add: world_after_def)
    then obtain c where s4: "getCachedDataset wi ''people-1k'' = Some c" by blast
    from cc m4 s4 have "decryptMs (breakdown (rs ! 4)) = 0
                      \<and> totalMs (rs ! 4) = fetchMs (breakdown (rs ! 4)) + scanMs (breakdown (rs ! 4))
                      \<and> cacheBuildMs (breakdown (rs ! 4)) = buildMs c"
      by blast
    with m4 p4 s4 show ?thesis by blast
  qed
  show ?thesis
    apply (rule exI[of _ rs])
    apply (rule exI[of _ w'])
    apply (intro conjI)
    apply (rule run)
    apply (rule len)
    using r0 r1 e2 e4 apply blast+
    done
qed

text \<open>
  Claim C1 as stated fails in two places. The cache-build phase, which Blind Index does
  not exercise, is not reported as 0: the field is absent. And a cold Client Cache run
  exercises and reports fetch (7), decryption (11), scan (2) and cache build (18), yet
  its \<open>totalMs\<close> is 20, not the sum 38 of these fields.
\<close>

theorem totalMs_is_sum_of_phases_counterexample:
  "map (cacheBuildMs \<circ> breakdown)
       (results_of (runBenchmark demo_P demo_world ''people-1k'' ''an'' [blindIndex] ''pw'' False))
     = [None]
   \<and> map totalMs
       (results_of (runBenchmark demo_P steady_world ''people-1k'' ''an'' [clientCache] ''pw'' False))
     = [20]
   \<and> map breakdown
       (results_of (runBenchmark demo_P steady_world ''people-1k'' ''an'' [clientCache] ''pw'' False))
     = [\<lparr>indexMs = 0, fetchMs = 7, decryptMs = 11, scanMs = 2, cacheBuildMs = Some 18\<rparr>]"
  by (simp add: model_defs steady_world_def steady_clock_def chunk_loop.simps Let_def
           cong: eval_congs)

section \<open>Two Client Cache runs in a row\<close>

lemma fetchRecordPage_Inr:
  assumes "fetchRecordPage w ds n = Inr ((docs, t), w1)"
  shows "w1 = w\<lparr>ticks := Suc (Suc (ticks w))\<rparr> \<and> store_online w
         \<and> docs = take n (store_records w ds)"
  using assms
  by (auto simp: fetchRecordPage_def getDocs_page_def pending_def now_def Let_def
           split: if_splits)

lemma decryptRecords_Inr:
  assumes "decryptRecords P w docs ek = Inr ((rs, t), w1)"
  shows "w1 = w\<lparr>ticks := Suc (Suc (ticks w))\<rparr> \<and> decrypt_loop P ek docs [] = Inr rs
         \<and> t = clock w (Suc (ticks w)) - clock w (ticks w)"
  using assms
  by (auto simp: decryptRecords_def now_def Let_def split: sum.splits)

lemma cold_build_Inr:
  assumes "cold_build P w ds ek = Inr ((f, d, b, rs, note), w1)"
  shows "cache_online w \<and> cache_online w1 \<and> (\<exists>c. cache_db w1 ds = Some c \<and> records c = rs)"
  using assms
  by (auto simp: cold_build_def setCachedDataset_def now_def Let_def
           split: sum.splits prod.splits if_splits
           dest!: fetchRecordPage_Inr decryptRecords_Inr)

lemma run_clientCache_post:
  assumes "run_clientCache P w ds nq ek = Inr (r, w')"
  shows "\<exists>c. getCachedDataset w' ds = Some c
             \<and> resultCount r = length (searchCache (records c) nq)"
proof (cases "getCachedDataset w ds")
  case None
  with assms obtain f d b rs nt w3 where
    cb: "cold_build P (w\<lparr>ticks := Suc (Suc (ticks w))\<rparr>) ds ek = Inr ((f, d, b, rs, nt), w3)"
    and w': "w' = w3\<lparr>ticks := Suc (Suc (ticks w3))\<rparr>"
    and rc: "resultCount r = length (searchCache rs nq)"
    by (auto simp: run_clientCache_def getCachedDataset_def now_def Let_def
             split: sum.splits prod.splits if_splits)
  from cold_build_Inr[OF cb] w' rc show ?thesis
    by (auto simp: getCachedDataset_def)
next
  case (Some c)
  with assms show ?thesis
    by (auto simp: run_clientCache_def getCachedDataset_def warm_read_def now_def Let_def
             split: if_splits)
qed

lemma run_clientCache_warm:
  assumes "getCachedDataset w ds = Some c"
  shows "\<exists>r. run_clientCache P w ds nq ek
               = Inr (r, w\<lparr>ticks := Suc (Suc (Suc (Suc (ticks w))))\<rparr>)
             \<and> decryptMs (breakdown r) = 0
             \<and> fetchMs (breakdown r) = clock w (Suc (ticks w)) - clock w (ticks w)
             \<and> resultCount r = length (searchCache (records c) nq)"
  using assms
  by (auto simp: run_clientCache_def getCachedDataset_def warm_read_def now_def Let_def
           split: if_splits)


lemma run_clientCache_warm_hits:
  assumes "getCachedDataset w ds = Some c"
  shows "\<exists>r. run_clientCache P w ds nq ek
               = Inr (r, w\<lparr>ticks := Suc (Suc (Suc (Suc (ticks w))))\<rparr>)
             \<and> decryptMs (breakdown r) = 0
             \<and> fetchMs (breakdown r) = clock w (Suc (ticks w)) - clock w (ticks w)
             \<and> resultCount r = length (searchCache (records c) nq)
             \<and> hits r = js_slice (searchCache (records c) nq) 0 (int MAX_HITS)"
  using assms
  by (auto simp: run_clientCache_def getCachedDataset_def warm_read_def now_def Let_def
           split: if_splits)

text \<open>
  Claim C4, as amended. After a Client Cache run that returned, a second Client Cache
  run on the same dataset and query, with no clearing in between, returns too; it finds
  the snapshot in the cache and takes its hits from it, it changes nothing in the world
  but four readings of the clock (no store access, no cache write), it reports
  \<open>decryptMs = 0\<close> and the same \<open>resultCount\<close> as the first run, and its \<open>fetchMs\<close> is
  the time the read of the cache took (the difference of the two clock readings around
  \<^verbatim>\<open>getCachedDataset\<close>), which is 0 only if the clock did not move meanwhile.
\<close>

theorem second_cache_run_reads_snapshot:
  assumes "normalize q \<noteq> []"
    and "runBenchmark P w ds q [clientCache] pass pq = Inr (rs1, w1)"
  shows "\<exists>r1 r2 c.
           rs1 = [r1]
         \<and> getCachedDataset w1 ds = Some c
         \<and> runBenchmark P w1 ds q [clientCache] pass pq
             = Inr ([r2], w1\<lparr>ticks := Suc (Suc (Suc (Suc (ticks w1))))\<rparr>)
         \<and> hits r2 = js_slice (searchCache (records c) (normalize q)) 0 (int MAX_HITS)
         \<and> decryptMs (breakdown r2) = 0
         \<and> fetchMs (breakdown r2) = clock w1 (Suc (ticks w1)) - clock w1 (ticks w1)
         \<and> resultCount r2 = resultCount r1"
proof -
  from runBenchmark_Inr[OF assms(2,1)] obtain keys :: DerivedKeys where
    dk: "deriveKeys P pass (getSalt P) (if pq then PQ_KDF else DEFAULT_KDF) = Inr keys"
    and rm: "run_modes P w ds (normalize q) (encKey keys) (indexKey keys) [clientCache] []
             = Inr (rs1, w1)"
    by blast
  from rm obtain r1 where
    r1: "run_clientCache P w ds (normalize q) (encKey keys) = Inr (r1, w1)" and rs1: "rs1 = [r1]"
    by (auto split: sum.splits)
  from run_clientCache_post[OF r1] obtain c where
    c: "getCachedDataset w1 ds = Some c"
    and n1: "resultCount r1 = length (searchCache (records c) (normalize q))"
    by blast
  from run_clientCache_warm_hits[OF c, of P "normalize q" "encKey keys"] obtain r2 where
    r2: "run_clientCache P w1 ds (normalize q) (encKey keys)
         = Inr (r2, w1\<lparr>ticks := Suc (Suc (Suc (Suc (ticks w1))))\<rparr>)"
    and props: "decryptMs (breakdown r2) = 0"
      "fetchMs (breakdown r2) = clock w1 (Suc (ticks w1)) - clock w1 (ticks w1)"
      "resultCount r2 = length (searchCache (records c) (normalize q))"
      "hits r2 = js_slice (searchCache (records c) (normalize q)) 0 (int MAX_HITS)"
    by blast
  have "runBenchmark P w1 ds q [clientCache] pass pq
        = Inr ([r2], w1\<lparr>ticks := Suc (Suc (Suc (Suc (ticks w1))))\<rparr>)"
    using assms(1) dk r2 by (simp add: runBenchmark_def Let_def)
  with rs1 c props n1 show ?thesis by simp
qed

theorem second_cache_run_reads_snapshot_witness:
  "normalize ''an'' \<noteq> []
   \<and> (\<exists>rs1 w1 r1 r2 c.
         runBenchmark demo_P demo_world ''people-1k'' ''an'' [clientCache] ''pw'' False
           = Inr (rs1, w1)
       \<and> rs1 = [r1]
       \<and> getCachedDataset w1 ''people-1k'' = Some c
       \<and> runBenchmark demo_P w1 ''people-1k'' ''an'' [clientCache] ''pw'' False
           = Inr ([r2], w1\<lparr>ticks := Suc (Suc (Suc (Suc (ticks w1))))\<rparr>)
       \<and> hits r2 = js_slice (searchCache (records c) (normalize ''an'')) 0 (int MAX_HITS)
       \<and> decryptMs (breakdown r2) = 0
       \<and> fetchMs (breakdown r2) = clock w1 (Suc (ticks w1)) - clock w1 (ticks w1)
       \<and> resultCount r2 = resultCount r1)"
proof -
  let ?run = "runBenchmark demo_P demo_world ''people-1k'' ''an'' [clientCache] ''pw'' False"
  have ne: "normalize ''an'' \<noteq> []" by simp
  have "\<not> isl ?run"
    by (simp add: model_defs Let_def cong: eval_congs)
  then obtain rs1 w1 where run: "?run = Inr (rs1, w1)" by (cases ?run) auto
  from second_cache_run_reads_snapshot[OF ne run] ne run show ?thesis by blast
qed

text \<open>
  Claim C4 as stated fails: on the clock whose \<open>k\<close>-th reading is \<open>k\<^sup>2\<close> the second run
  reports \<open>fetchMs = 21\<close>, the time of its cache read, not 0.
\<close>

theorem second_cache_run_fetchMs_counterexample:
  "map (fetchMs \<circ> breakdown)
     (results_of
        (runBenchmark demo_P
           (world_after demo_world
              (runBenchmark demo_P demo_world ''people-1k'' ''an'' [clientCache] ''pw'' False))
           ''people-1k'' ''an'' [clientCache] ''pw'' False))
   = [21]"
  by (simp add: model_defs Let_def cong: eval_congs)


section \<open>Oversized buckets\<close>

lemma js_slice_take:
  "js_slice xs 0 (int n) = take n xs"
proof (cases "n \<le> length xs")
  case True
  then show ?thesis by (simp add: js_slice_def Let_def min_def)
next
  case False
  then show ?thesis by (simp add: js_slice_def Let_def min_def)
qed

lemma getDocs_in_Inr:
  assumes "getDocs_in w ds g = Inr (snapshot, w1)"
  shows "w1 = w\<lparr>store_reads := store_reads w @ [g]\<rparr>
         \<and> snapshot = filter (\<lambda>d. doc_id d \<in> set g) (store_records w ds)"
  using assms by (auto simp: getDocs_in_def split: if_splits)

lemma fetch_groups_Inr:
  assumes "fetch_groups w ds gs acc = Inr (docs, w')"
  shows "w' = w\<lparr>store_reads := store_reads w @ gs\<rparr>
         \<and> docs = acc @ concat (map (\<lambda>g. filter (\<lambda>d. doc_id d \<in> set g) (store_records w ds)) gs)"
  using assms
proof (induction gs arbitrary: w acc)
  case Nil
  then show ?case by simp
next
  case (Cons g gs)
  from Cons.prems obtain snapshot w1 where
    one: "getDocs_in w ds g = Inr (snapshot, w1)"
    and rest: "fetch_groups w1 ds gs (acc @ snapshot) = Inr (docs, w')"
    by (auto split: sum.splits)
  from getDocs_in_Inr[OF one] Cons.IH[OF rest] show ?case by simp
qed

lemma fetchRecordsByIds_Inr:
  assumes "fetchRecordsByIds w ds ids = Inr ((docs, t), w')"
  shows "\<exists>gs. concat gs = ids
              \<and> w' = w\<lparr>ticks := Suc (Suc (ticks w)), store_reads := store_reads w @ gs\<rparr>
              \<and> set (map doc_id docs) \<subseteq> set ids"
proof -
  from assms obtain gs w2 where
    ch: "chunk ids 10 = Some gs"
    and fg: "fetch_groups (w\<lparr>ticks := Suc (ticks w)\<rparr>) ds gs [] = Inr (docs, w2)"
    and w': "w' = w2\<lparr>ticks := Suc (ticks w2)\<rparr>"
    by (auto simp: fetchRecordsByIds_def now_def Let_def split: option.splits sum.splits)
  from chunk_returns[of 10 ids] ch have cat: "concat gs = ids" by auto
  from fetch_groups_Inr[OF fg] have
    w2: "w2 = w\<lparr>ticks := Suc (ticks w), store_reads := store_reads w @ gs\<rparr>"
    and docs: "docs = concat (map (\<lambda>g. filter (\<lambda>d. doc_id d \<in> set g) (store_records w ds)) gs)"
    by simp_all
  from docs cat have "set (map doc_id docs) \<subseteq> set ids" by auto
  with cat w' w2 show ?thesis by (intro exI[of _ gs]) simp
qed

lemma decrypt_loop_ids:
  assumes "decrypt_loop P ek docs acc = Inr rs"
  shows "map pid rs = map pid acc @ map doc_id docs"
  using assms
proof (induction docs arbitrary: acc)
  case Nil
  then show ?case by simp
next
  case (Cons d docs)
  from Cons.prems obtain payload where
    "decrypt_loop P ek docs (acc @ [payload\<lparr>pid := doc_id d\<rparr>]) = Inr rs"
    by (auto split: sum.splits)
  from Cons.IH[OF this] show ?case by simp
qed

lemma index_result_capped:
  assumes "index_result P w ds ek m ims (Some ids) = Inr (r, w')"
    and "length ids > 50"
  shows "(\<exists>gs. store_reads w' = store_reads w @ gs \<and> concat gs = take 50 ids)
         \<and> set (map pid (hits r)) \<subseteq> set (take 50 ids)
         \<and> resultCount r = length ids
         \<and> length (hits r) \<le> 20
         \<and> (\<exists>nt. sampleNote r = Some nt \<and> nt \<noteq> [])"
proof -
  have sl: "js_slice ids 0 50 = take 50 ids"
    using js_slice_take[of ids 50] by simp
  from assms sl obtain docs t w1 rs t2 where
    f: "fetchRecordsByIds w ds (take 50 ids) = Inr ((docs, t), w1)"
    and d: "decryptRecords P w1 docs ek = Inr ((rs, t2), w')"
    and rc: "resultCount r = length ids"
    and h: "hits r = js_slice rs 0 20"
    and sn: "sampleNote r = Some (cappedNote P (length ids))"
    by (auto simp: index_result_def MAX_RESULT_FETCH_def MAX_HITS_def Let_def
             split: sum.splits prod.splits)
  from fetchRecordsByIds_Inr[OF f] obtain gs where
    gs: "concat gs = take 50 ids"
    and w1: "w1 = w\<lparr>ticks := Suc (Suc (ticks w)), store_reads := store_reads w @ gs\<rparr>"
    and ids: "set (map doc_id docs) \<subseteq> set (take 50 ids)"
    by blast
  from decryptRecords_Inr[OF d] have
    w': "w' = w1\<lparr>ticks := Suc (Suc (ticks w1))\<rparr>" and dl: "decrypt_loop P ek docs [] = Inr rs"
    by simp_all
  from decrypt_loop_ids[OF dl] have "map pid rs = map doc_id docs" by simp
  then have "set (map pid rs) \<subseteq> set (take 50 ids)" using ids by simp
  moreover have hr: "hits r = take 20 rs" using h js_slice_take[of rs 20] by simp
  moreover have "set (map pid (take 20 rs)) \<subseteq> set (map pid rs)"
    by (simp add: image_mono set_take_subset)
  ultimately have "set (map pid (hits r)) \<subseteq> set (take 50 ids)" by simp
  moreover have "length (hits r) \<le> 20" using hr by simp
  moreover have "store_reads w' = store_reads w @ gs" using w' w1 by simp
  moreover have "cappedNote P (length ids) \<noteq> []" by (simp add: cappedNote_def)
  ultimately show ?thesis using gs rc sn by blast
qed

text \<open>
  Claim C3. In the Blind Index and the Plaintext Index mode, when the bucket of the query
  holds more than 50 ids and the mode returns: the batch lookups ask the store for the
  first 50 ids of the bucket and for nothing else (\<open>store_reads\<close> grows by groups whose
  concatenation is \<open>take 50 ids\<close>), every hit carries one of these ids, \<open>resultCount\<close> is
  the size of the whole bucket, there are at most 20 hits, and a non-empty \<open>sampleNote\<close>
  is present. For a bucket of 75 ids, \<open>resultCount\<close> is 75.
\<close>

theorem oversized_bucket_is_capped:
  assumes "m = blindIndex \<or> m = plaintextIndex"
    and "run_mode P w ds nq ek ik m = Inr (r, w')"
    and "m = blindIndex \<longrightarrow>
           (\<exists>token. computeToken P nq ik = Inr token \<and> store_index w ds token = Some ids)"
    and "m = plaintextIndex \<longrightarrow> store_plaintextIndex w ds nq = Some ids"
    and "length ids > 50"
  shows "(\<exists>gs. store_reads w' = store_reads w @ gs \<and> concat gs = take 50 ids)
         \<and> set (map pid (hits r)) \<subseteq> set (take 50 ids)
         \<and> resultCount r = length ids
         \<and> length (hits r) \<le> 20
         \<and> (\<exists>nt. sampleNote r = Some nt \<and> nt \<noteq> [])"
proof -
  from assms(1) show ?thesis
  proof
    assume m: "m = blindIndex"
    with assms(3) obtain token where
      tk: "computeToken P nq ik = Inr token" and b: "store_index w ds token = Some ids"
      by blast
    from assms(2) m tk b obtain ims w2 where
      ir: "index_result P w2 ds ek blindIndex ims (Some ids) = Inr (r, w')"
      and w2: "store_reads w2 = store_reads w"
      by (auto simp: run_blindIndex_def getDoc_index_def now_def Let_def split: if_splits)
    from index_result_capped[OF ir assms(5)] w2 show ?thesis by simp
  next
    assume m: "m = plaintextIndex"
    with assms(4) have b: "store_plaintextIndex w ds nq = Some ids" by simp
    from assms(2) m b obtain ims w2 where
      ir: "index_result P w2 ds ek plaintextIndex ims (Some ids) = Inr (r, w')"
      and w2: "store_reads w2 = store_reads w"
      by (auto simp: run_plaintextIndex_def getDoc_plaintextIndex_def encodePrefixDocId_def
                     now_def Let_def split: if_splits)
    from index_result_capped[OF ir assms(5)] w2 show ?thesis by simp
  qed
qed


theorem oversized_bucket_is_capped_witness:
  "length bucket75 = 75
   \<and> computeToken demo_P ''an'' demo_index_key = Inr ''an''
   \<and> store_index big_bucket_world ''people-1k'' ''an'' = Some bucket75
   \<and> store_plaintextIndex big_bucket_world ''people-1k'' ''an'' = Some bucket75
   \<and> (\<exists>r w'. run_mode demo_P big_bucket_world ''people-1k'' ''an'' demo_key demo_index_key
                 blindIndex = Inr (r, w')
        \<and> (\<exists>gs. store_reads w' = store_reads big_bucket_world @ gs
                 \<and> concat gs = take 50 bucket75)
        \<and> resultCount r = 75 \<and> length (hits r) \<le> 20
        \<and> (\<exists>nt. sampleNote r = Some nt \<and> nt \<noteq> []))
   \<and> (\<exists>r w'. run_mode demo_P big_bucket_world ''people-1k'' ''an'' demo_key demo_index_key
                 plaintextIndex = Inr (r, w')
        \<and> (\<exists>gs. store_reads w' = store_reads big_bucket_world @ gs
                 \<and> concat gs = take 50 bucket75)
        \<and> resultCount r = 75 \<and> length (hits r) \<le> 20
        \<and> (\<exists>nt. sampleNote r = Some nt \<and> nt \<noteq> []))"
proof -
  let ?A = "run_mode demo_P big_bucket_world ''people-1k'' ''an'' demo_key demo_index_key
              blindIndex"
  let ?D = "run_mode demo_P big_bucket_world ''people-1k'' ''an'' demo_key demo_index_key
              plaintextIndex"
  have len: "length bucket75 = 75" by (simp add: bucket75_def)
  have tk: "computeToken demo_P ''an'' demo_index_key = Inr ''an''"
    by (simp add: model_defs)
  have bi: "store_index big_bucket_world ''people-1k'' ''an'' = Some bucket75"
    and bp: "store_plaintextIndex big_bucket_world ''people-1k'' ''an'' = Some bucket75"
    by (simp_all add: big_bucket_world_def demo_world_def)
  have "\<not> isl ?A"
    by (simp add: model_defs big_bucket_world_def bucket75_def chunk_loop.simps Let_def
             cong: eval_congs)
  then obtain rA wA where A: "?A = Inr (rA, wA)" by (cases ?A) auto
  have "\<not> isl ?D"
    by (simp add: model_defs big_bucket_world_def bucket75_def chunk_loop.simps Let_def
             cong: eval_congs)
  then obtain rD wD where D: "?D = Inr (rD, wD)" by (cases ?D) auto
  have big: "length bucket75 > 50" using len by simp
  from oversized_bucket_is_capped[of blindIndex demo_P big_bucket_world "''people-1k''"
         "''an''" demo_key demo_index_key rA wA bucket75, OF _ A _ _ big] tk bi
  have "(\<exists>gs. store_reads wA = store_reads big_bucket_world @ gs
               \<and> concat gs = take 50 bucket75)
        \<and> resultCount rA = 75 \<and> length (hits rA) \<le> 20
        \<and> (\<exists>nt. sampleNote rA = Some nt \<and> nt \<noteq> [])"
    using len by simp
  moreover
  from oversized_bucket_is_capped[of plaintextIndex demo_P big_bucket_world "''people-1k''"
         "''an''" demo_key demo_index_key rD wD bucket75, OF _ D _ _ big] bp
  have "(\<exists>gs. store_reads wD = store_reads big_bucket_world @ gs
               \<and> concat gs = take 50 bucket75)
        \<and> resultCount rD = 75 \<and> length (hits rD) \<le> 20
        \<and> (\<exists>nt. sampleNote rD = Some nt \<and> nt \<noteq> [])"
    using len by simp
  ultimately show ?thesis using len tk bi bp A D by blast
qed


section \<open>Decrypt-and-Scan reads the whole dataset\<close>

text \<open>
  In a list that is strictly sorted by a key, the elements after the first \<open>n\<close> are
  those whose key is above the key of the \<open>n\<close>-th: a cursor placed on the last document
  of a full page selects exactly the rest.
\<close>

lemma strict_sorted_filter_after:
  fixes f :: "'a \<Rightarrow> 'b::order"
  assumes "sorted_wrt (<) (map f zs)" "0 < n" "n \<le> length zs"
  shows "filter (\<lambda>d. f (last (take n zs)) < f d) zs = drop n zs"
proof -
  let ?hd = "take n zs" and ?tl = "drop n zs"
  let ?L = "last ?hd"
  have ne: "?hd \<noteq> []" using assms(2,3) by auto
  have split: "zs = ?hd @ ?tl" by simp
  have "sorted_wrt (<) (map f ?hd @ map f ?tl)"
    using assms(1) by (metis split map_append)
  then have s1: "sorted_wrt (<) (map f ?hd)"
    and cross: "\<forall>x \<in> set ?hd. \<forall>y \<in> set ?tl. f x < f y"
    by (auto simp: sorted_wrt_append)
  have "?hd = butlast ?hd @ [?L]" using ne by simp
  then have "sorted_wrt (<) (map f (butlast ?hd) @ [f ?L])"
    using s1 by (metis list.simps(8,9) map_append)
  then have before: "\<forall>x \<in> set (butlast ?hd). f x < f ?L"
    by (auto simp: sorted_wrt_append)
  have "\<forall>x \<in> set ?hd. \<not> f ?L < f x"
  proof
    fix x assume "x \<in> set ?hd"
    then have "x \<in> set (butlast ?hd) \<or> x = ?L"
      using ne by (metis Un_iff append_butlast_last_id list.set_intros(1) set_ConsD set_append
                     empty_iff empty_set)
    with before show "\<not> f ?L < f x" by auto
  qed
  then have a: "filter (\<lambda>d. f ?L < f d) ?hd = []" by (simp add: filter_empty_conv)
  have "?L \<in> set ?hd" using ne by simp
  with cross have "\<forall>y \<in> set ?tl. f ?L < f y" by blast
  then have b: "filter (\<lambda>d. f ?L < f d) ?tl = ?tl" by (simp add: filter_id_conv)
  have "filter (\<lambda>d. f ?L < f d) zs = filter (\<lambda>d. f ?L < f d) (?hd @ ?tl)" by simp
  also have "\<dots> = ?tl" using a b by (simp only: filter_append append_Nil)
  finally show ?thesis .
qed

lemma pending_sorted:
  assumes "sorted_wrt (<) (map doc_id (store_records w ds))"
  shows "sorted_wrt (<) (map doc_id (pending w ds lastId))"
proof (cases lastId)
  case None
  with assms show ?thesis by (simp add: pending_def)
next
  case (Some l)
  have "sorted_wrt (<) (filter (\<lambda>i. l < i) (map doc_id (store_records w ds)))"
    using assms by (rule sorted_wrt_filter)
  then show ?thesis using Some by (simp add: pending_def filter_map comp_def)
qed

lemma pending_advance:
  assumes srt: "sorted_wrt (<) (map doc_id (store_records w ds))"
    and n: "0 < n" "n \<le> length (pending w ds lastId)"
  shows "pending w ds (Some (doc_id (last (take n (pending w ds lastId)))))
         = drop n (pending w ds lastId)"
proof -
  let ?P = "pending w ds lastId"
  let ?L = "last (take n ?P)"
  have ne: "take n ?P \<noteq> []" using n by auto
  then have Lin: "?L \<in> set ?P" by (metis in_set_takeD last_in_set)
  have "filter (\<lambda>d. doc_id ?L < doc_id d) (store_records w ds)
        = filter (\<lambda>d. doc_id ?L < doc_id d) ?P"
  proof (cases lastId)
    case None
    then show ?thesis by (simp add: pending_def)
  next
    case (Some l)
    with Lin have "l < doc_id ?L" by (simp add: pending_def)
    then show ?thesis using Some by (auto simp: pending_def intro!: filter_cong)
  qed
  also have "\<dots> = drop n ?P"
    using strict_sorted_filter_after[OF pending_sorted[OF srt] n] .
  finally show ?thesis by (simp add: pending_def)
qed

lemma fetchAll_loop_complete:
  assumes "store_online w"
    and "sorted_wrt (<) (map doc_id (store_records w ds))"
    and "\<forall>d \<in> set (store_records w ds). doc_id d \<noteq> []"
    and "0 < n"
    and "lastId \<noteq> Some []"
  shows "fetchAll_loop w ds n lastId acc = Inr (acc @ pending w ds lastId)"
  using assms
proof (induction w ds n lastId acc rule: fetchAll_loop.induct)
  case (1 w ds pageSize lastId docs)
  let ?P = "pending w ds lastId"
  let ?snap = "take pageSize ?P"
  have cursor: "(case lastId of None \<Rightarrow> None | Some l \<Rightarrow> if l = [] then None else Some l) = lastId"
    using "1.prems"(5) by (cases lastId) auto
  have page: "getDocs_page w ds lastId pageSize = Inr ?snap"
    using "1.prems"(1) by (simp add: getDocs_page_def pending_def)
  show ?case
  proof (cases "length ?snap < pageSize")
    case True
    then have "?snap = ?P" by simp
    with True page cursor show ?thesis
      by (subst fetchAll_loop.simps) simp
  next
    case False
    then have full: "pageSize \<le> length ?P" by simp
    with "1.prems"(4) have ne: "?snap \<noteq> []" by auto
    then have "last ?snap \<in> set ?P" by (metis in_set_takeD last_in_set)
    then have "last ?snap \<in> set (store_records w ds)"
      by (cases lastId) (auto simp: pending_def)
    with "1.prems"(3) have idne: "doc_id (last ?snap) \<noteq> []" by blast
    have "fetchAll_loop w ds pageSize (Some (doc_id (last ?snap))) (docs @ ?snap)
          = Inr ((docs @ ?snap) @ pending w ds (Some (doc_id (last ?snap))))"
      using "1.IH"[of ?snap] page cursor False ne idne "1.prems"(1-4) by simp
    also have "pending w ds (Some (doc_id (last ?snap))) = drop pageSize ?P"
      using pending_advance[OF "1.prems"(2,4) full] .
    finally have "fetchAll_loop w ds pageSize (Some (doc_id (last ?snap))) (docs @ ?snap)
                  = Inr (docs @ ?P)" by simp
    with page cursor False ne idne show ?thesis
      by (subst fetchAll_loop.simps) simp
  qed
qed


lemma decrypt_loop_length:
  assumes "decrypt_loop P ek docs acc = Inr rs"
  shows "length rs = length acc + length docs"
  using decrypt_loop_ids[OF assms] by (metis length_append length_map)

text \<open>
  Claim C5. Let the store be reachable, the collection be listed in the strict order of
  its document ids, no id be empty, and every record decrypt (\<open>rs\<close> is the decrypted
  dataset, one person for each document, in order). Then the page loop of
  \<^verbatim>\<open>fetchAllRecords\<close>, which moves its cursor to the last id of each full page and stops
  at a short page, returns the whole collection; and Decrypt-and-Scan returns, counts
  exactly the persons of \<open>rs\<close> whose normalized name or email starts with the
  normalized query, shows the first 20 of them, and attaches no sampling note.
\<close>

theorem decryptScan_examines_every_record:
  assumes "store_online w"
    and "sorted_wrt (<) (map doc_id (store_records w ds))"
    and "\<forall>d \<in> set (store_records w ds). doc_id d \<noteq> []"
    and "decrypt_loop P ek (store_records w ds) [] = Inr rs"
  shows "fetchAll_loop w ds FULL_SCAN_PAGE_SIZE None [] = Inr (store_records w ds)
         \<and> map pid rs = map doc_id (store_records w ds)
         \<and> (\<exists>r w'. run_decryptScan P w ds nq ek = Inr (r, w')
               \<and> resultCount r = length (filter (matchesQuery nq) rs)
               \<and> hits r = take 20 (filter (matchesQuery nq) rs)
               \<and> sampleNote r = None)"
proof -
  let ?w1 = "w\<lparr>ticks := Suc (ticks w)\<rparr>"
  have all: "fetchAll_loop w0 ds FULL_SCAN_PAGE_SIZE None [] = Inr (store_records w ds)"
    if "store_online w0" "store_records w0 = store_records w" for w0 :: "'a world"
    using fetchAll_loop_complete[of w0 ds FULL_SCAN_PAGE_SIZE None "[]"] that assms(2,3)
    by (simp add: FULL_SCAN_PAGE_SIZE_def pending_def)
  have f: "fetchAllRecords w ds FULL_SCAN_PAGE_SIZE
           = Inr ((store_records w ds, clock w (Suc (ticks w)) - clock w (ticks w)),
                  w\<lparr>ticks := Suc (Suc (ticks w))\<rparr>)"
    using all[of ?w1] assms(1) by (simp add: fetchAllRecords_def now_def Let_def)
  have "\<exists>r w'. run_decryptScan P w ds nq ek = Inr (r, w')
               \<and> resultCount r = length (filter (matchesQuery nq) rs)
               \<and> hits r = js_slice (filter (matchesQuery nq) rs) 0 (int 20)
               \<and> sampleNote r = None"
    using f assms(4)
    by (simp add: run_decryptScan_def decryptRecords_def scanRecords_def now_def Let_def
                  MAX_HITS_def)
  then have "\<exists>r w'. run_decryptScan P w ds nq ek = Inr (r, w')
               \<and> resultCount r = length (filter (matchesQuery nq) rs)
               \<and> hits r = take 20 (filter (matchesQuery nq) rs)
               \<and> sampleNote r = None"
    by (simp only: js_slice_take)
  moreover have "map pid rs = map doc_id (store_records w ds)"
    using decrypt_loop_ids[OF assms(4)] by simp
  ultimately show ?thesis using all[of w] assms(1) by simp
qed

text \<open>
  The cursor at work on the three stored documents: with pages of two the first page is
  full, the loop goes on after \<open>r2\<close> and stops at the short second page; with pages of one
  it stops at the empty fourth page. Both times it returns every document.
\<close>

lemma fetchAll_loop_pages_of_two:
  "getDocs_page demo_world ''people-1k'' None 2 = Inr (take 2 demo_docs)
   \<and> getDocs_page demo_world ''people-1k'' (Some ''r2'') 2 = Inr (drop 2 demo_docs)
   \<and> fetchAll_loop demo_world ''people-1k'' 2 None [] = Inr demo_docs
   \<and> fetchAll_loop demo_world ''people-1k'' 1 None [] = Inr demo_docs"
  by (simp add: model_defs fetchAll_loop.simps Let_def less_char_def cong: eval_congs)

lemma demo_ids_sorted: "sorted_wrt (<) [''r1'', ''r2'', ''r3'']"
  by (simp add: less_char_def)

theorem decryptScan_examines_every_record_witness:
  "store_online demo_world
   \<and> sorted_wrt (<) (map doc_id (store_records demo_world ''people-1k''))
   \<and> list_all (\<lambda>d. doc_id d \<noteq> []) (store_records demo_world ''people-1k'')
   \<and> (\<exists>rs. decrypt_loop demo_P demo_key (store_records demo_world ''people-1k'') [] = Inr rs
         \<and> map name rs = [''Ann'', ''Anna'', ''Bob'']
         \<and> fetchAll_loop demo_world ''people-1k'' FULL_SCAN_PAGE_SIZE None []
             = Inr (store_records demo_world ''people-1k'')
         \<and> map pid rs = map doc_id (store_records demo_world ''people-1k'')
         \<and> (\<exists>r w'. run_decryptScan demo_P demo_world ''people-1k'' ''an'' demo_key = Inr (r, w')
               \<and> resultCount r = length (filter (matchesQuery ''an'') rs)
               \<and> hits r = take 20 (filter (matchesQuery ''an'') rs)
               \<and> map name (hits r) = [''Ann'', ''Anna'']
               \<and> sampleNote r = None))"
proof -
  let ?recs = "store_records demo_world ''people-1k''"
  have on: "store_online demo_world" by (simp add: demo_world_def)
  have srt: "sorted_wrt (<) (map doc_id ?recs)"
    using demo_ids_sorted by (simp add: demo_world_def demo_docs_def)
  have ids: "\<forall>d \<in> set ?recs. doc_id d \<noteq> []"
    by (simp add: demo_world_def demo_docs_def)
  have dec: "decrypt_loop demo_P demo_key ?recs []
             = Inr [\<lparr>pid = ''r1'', name = ''Ann'', email = ''ann@x.org'', city = [], company = []\<rparr>,
                    \<lparr>pid = ''r2'', name = ''Anna'', email = ''anna@x.org'', city = [], company = []\<rparr>,
                    \<lparr>pid = ''r3'', name = ''Bob'', email = ''bob@x.org'', city = [], company = []\<rparr>]"
    (is "_ = Inr ?rs")
    by (simp add: model_defs Let_def cong: eval_congs)
  have flt: "filter (matchesQuery ''an'') ?rs = take 2 ?rs"
    by (simp add: matchesQuery_def startsWith_def)
  have nm: "map name ?rs = [''Ann'', ''Anna'', ''Bob'']" by simp
  from decryptScan_examines_every_record[OF on srt ids dec, of "''an''"]
  obtain r w' where
    fa: "fetchAll_loop demo_world ''people-1k'' FULL_SCAN_PAGE_SIZE None [] = Inr ?recs"
    and pd: "map pid ?rs = map doc_id ?recs"
    and run: "run_decryptScan demo_P demo_world ''people-1k'' ''an'' demo_key = Inr (r, w')"
    and rc: "resultCount r = length (filter (matchesQuery ''an'') ?rs)"
    and h: "hits r = take 20 (filter (matchesQuery ''an'') ?rs)"
    and sn: "sampleNote r = None"
    by blast
  have hn: "map name (hits r) = [''Ann'', ''Anna'']"
    by (simp only: h flt) simp
  have la: "list_all (\<lambda>d. doc_id d \<noteq> []) ?recs"
    using ids by (simp only: list_all_iff)
  show ?thesis
    apply (intro conjI)
       apply (rule on)
      apply (rule srt)
     apply (rule la)
    apply (rule exI[of _ ?rs])
    apply (intro conjI)
        apply (rule dec)
       apply (rule nm)
      apply (rule fa)
     apply (rule pd)
    apply (rule exI[of _ r])
    apply (rule exI[of _ w'])
    apply (intro conjI)
        apply (rule run)
       apply (rule rc)
      apply (rule h)
     apply (rule hn)
    apply (rule sn)
    done
qed


section \<open>Key derivation\<close>

lemma js_slice_range:
  assumes "a \<le> b" "b \<le> length xs"
  shows "js_slice xs (int a) (int b) = take (b - a) (drop a xs)"
  using assms by (simp add: js_slice_def Let_def min_def nat_diff_distrib')

text \<open>
  Claim C7. \<^verbatim>\<open>deriveKeys\<close> asks PBKDF2 for 512 bits over the UTF-8 bytes of the passphrase
  and the salt, with \<open>iterations options\<close> rounds and SHA-256, whatever \<open>hmacHash options\<close>
  is. When the platform answers with the 64 bytes \<open>bits\<close>, \<^verbatim>\<open>deriveKeys\<close> returns: the
  AES-GCM encryption key is bytes 0 to 31, the HMAC index key is bytes 32 to 63, and the
  hash of the index key is \<open>hmacHash options\<close>. Changing \<open>hmacHash\<close> alone changes the
  hash of the index key and nothing else: the key bytes stay the same.
\<close>

theorem deriveKeys_splits_64_bytes:
  assumes "pbkdf2_bits P SHA_256 (utf8_encode P passphrase) salt (iterations options) 512
           = Some bits"
    and "length bits = 64"
  shows "\<exists>keys. deriveKeys P passphrase salt options = Inr keys
           \<and> raw (encKey keys) = take 32 bits
           \<and> raw (indexKey keys) = drop 32 bits
           \<and> length (raw (encKey keys)) = 32
           \<and> length (raw (indexKey keys)) = 32
           \<and> algorithm (encKey keys) = AES_GCM
           \<and> algorithm (indexKey keys) = HMAC (hmacHash options)
           \<and> (\<forall>h. \<exists>keys'. deriveKeys P passphrase salt (options\<lparr>hmacHash := h\<rparr>) = Inr keys'
                    \<and> raw (encKey keys') = raw (encKey keys)
                    \<and> raw (indexKey keys') = raw (indexKey keys)
                    \<and> algorithm (indexKey keys') = HMAC h)"
proof -
  have e: "js_slice bits 0 32 = take 32 bits"
    using js_slice_range[of 0 32 bits] assms(2) by simp
  have i: "js_slice bits 32 64 = drop 32 bits"
    using js_slice_range[of 32 64 bits] assms(2) by simp
  have ne: "drop 32 bits \<noteq> []" using assms(2) by auto
  have dk: "deriveKeys P passphrase salt (options\<lparr>hmacHash := h\<rparr>)
        = Inr \<lparr>encKey = \<lparr>algorithm = AES_GCM, raw = take 32 bits, extractable = False,
                         usages = [UseEncrypt, UseDecrypt]\<rparr>,
               indexKey = \<lparr>algorithm = HMAC h, raw = drop 32 bits, extractable = False,
                           usages = [UseSign]\<rparr>\<rparr>" for h
    using assms e i ne
    by (simp add: deriveKeys_def importKey_raw_def subtle_deriveBits_def Let_def)
  from dk[of "hmacHash options"] dk assms(2) show ?thesis by simp
qed

theorem deriveKeys_splits_64_bytes_witness:
  "pbkdf2_bits demo_P SHA_256 (utf8_encode demo_P ''pw'') (getSalt demo_P)
      (iterations PQ_KDF) 512 = Some (map of_nat [0 ..< 64])
   \<and> length (map of_nat [0 ..< 64] :: bytes) = 64
   \<and> (\<exists>keys. deriveKeys demo_P ''pw'' (getSalt demo_P) PQ_KDF = Inr keys
         \<and> raw (encKey keys) = map of_nat [0 ..< 32]
         \<and> raw (indexKey keys) = map of_nat [32 ..< 64]
         \<and> algorithm (encKey keys) = AES_GCM
         \<and> algorithm (indexKey keys) = HMAC SHA_512)"
proof -
  have h1: "pbkdf2_bits demo_P SHA_256 (utf8_encode demo_P ''pw'') (getSalt demo_P)
              (iterations PQ_KDF) 512 = Some (map of_nat [0 ..< 64])"
    by (simp add: demo_P_def demo_platform_def)
  have h2: "length (map of_nat [0 ..< 64] :: bytes) = 64" by simp
  have t: "take 32 (map of_nat [0 ..< 64] :: bytes) = map of_nat [0 ..< 32]"
    by (simp add: take_map)
  have d: "drop 32 (map of_nat [0 ..< 64] :: bytes) = map of_nat [32 ..< 64]"
    by (simp add: drop_map)
  from deriveKeys_splits_64_bytes[OF h1 h2] h1 h2 t d show ?thesis
    by (auto simp: PQ_KDF_def)
qed

section \<open>Encryption and decryption\<close>

lemma base64_roundtrip:
  assumes "\<And>b. buffer_from_base64 P (buffer_to_base64 P b) = b"
    and "\<And>s. atob P (btoa P s) = Some s"
  shows "base64ToBytes P (bytesToBase64 P bs) = Inr bs"
  using assms by (simp add: base64ToBytes_def bytesToBase64_def comp_def)

text \<open>
  Claim C8. The platform's contracts are hypotheses: AES-GCM decryption under the same
  key and iv inverts encryption, base64 decoding inverts encoding (on either path),
  UTF-8 decoding gives back the text \<^verbatim>\<open>JSON.stringify\<close> wrote, and \<^verbatim>\<open>JSON.parse\<close> inverts
  \<^verbatim>\<open>JSON.stringify\<close> on the payloads. Then, for every payload, every random iv and every
  key that may decrypt: whenever \<^verbatim>\<open>encryptJson\<close> returns \<open>(ct, iv)\<close>, \<^verbatim>\<open>decryptJson\<close> of
  that pair under the same key returns the payload.
\<close>

theorem encrypt_decrypt_roundtrip:
  assumes aes: "\<And>k n p c. aes_gcm_encrypt P k n p = Some c \<Longrightarrow> aes_gcm_decrypt P k n c = Some p"
    and buf: "\<And>b. buffer_from_base64 P (buffer_to_base64 P b) = b"
    and ab: "\<And>s. atob P (btoa P s) = Some s"
    and utf: "\<And>v. utf8_decode P (utf8_encode P (json_stringify P v)) = json_stringify P v"
    and json: "\<And>v. json_parse P (json_stringify P v) = Some v"
    and use: "UseDecrypt \<in> set (usages K)"
    and enc: "encryptJson P rnd payload K = Inr c"
  shows "decryptJson P (ct c) (iv c) K = Inr payload"
proof -
  let ?pt = "utf8_encode P (json_stringify P payload)"
  from enc obtain ciphertext where
    alg: "algorithm K = AES_GCM"
    and e: "aes_gcm_encrypt P (raw K) (rnd 12) ?pt = Some ciphertext"
    and c: "c = \<lparr>ct = bytesToBase64 P ciphertext, iv = bytesToBase64 P (rnd 12)\<rparr>"
    by (auto simp: encryptJson_def subtle_encrypt_def Let_def split: if_splits option.splits)
  have d: "subtle_decrypt P (rnd 12) K ciphertext = Inr ?pt"
    using alg use aes[OF e] by (simp add: subtle_decrypt_def)
  show ?thesis
    using c d base64_roundtrip[of P, OF buf ab] utf json
    by (simp add: decryptJson_def)
qed

theorem encrypt_decrypt_roundtrip_witness:
  "UseDecrypt \<in> set (usages demo_key)
   \<and> (\<exists>c. encryptJson demo_text_P (\<lambda>n. replicate n 7) ''[1,2,3]'' demo_key = Inr c
         \<and> decryptJson demo_text_P (ct c) (iv c) demo_key = Inr ''[1,2,3]'')"
proof -
  let ?P = "demo_text_P"
  have aes: "aes_gcm_decrypt ?P k n c = Some p" if "aes_gcm_encrypt ?P k n p = Some c" for k n p c
    using that by (auto simp: demo_text_P_def demo_platform_def)
  have buf: "buffer_from_base64 ?P (buffer_to_base64 ?P b) = b" for b
    by (simp add: demo_text_P_def demo_platform_def comp_def)
  have ab: "atob ?P (btoa ?P s) = Some s" for s
    by (simp add: demo_text_P_def demo_platform_def)
  have utf: "utf8_decode ?P (utf8_encode ?P (json_stringify ?P v)) = json_stringify ?P v" for v
    by (simp add: demo_text_P_def demo_platform_def comp_def)
  have json: "json_parse ?P (json_stringify ?P v) = Some v" for v
    by (simp add: demo_text_P_def demo_platform_def)
  have use: "UseDecrypt \<in> set (usages demo_key)" by (simp add: demo_key_def)
  have "\<not> isl (encryptJson ?P (\<lambda>n. replicate n 7) ''[1,2,3]'' demo_key)"
    by (simp add: encryptJson_def subtle_encrypt_def demo_key_def demo_text_P_def
                  demo_platform_def Let_def)
  then obtain c where enc: "encryptJson ?P (\<lambda>n. replicate n 7) ''[1,2,3]'' demo_key = Inr c"
    by (cases "encryptJson ?P (\<lambda>n. replicate n 7) ''[1,2,3]'' demo_key") auto
  from encrypt_decrypt_roundtrip[of ?P demo_key "\<lambda>n. replicate n 7" "''[1,2,3]''" c,
         OF aes buf ab utf json use enc] use enc
  show ?thesis by blast
qed


section \<open>What the earlier copy does instead\<close>

text \<open>
  The earlier copy asks the store for every id of a bucket, however large, and sets no
  note.
\<close>

lemma legacy_index_result_uncapped:
  assumes "legacy_index_result P w ds ek m ims (Some ids) = Inr (r, w')"
  shows "(\<exists>gs. store_reads w' = store_reads w @ gs \<and> concat gs = ids)
         \<and> sampleNote r = None"
proof -
  from assms obtain docs t w1 rs t2 where
    f: "fetchRecordsByIds w ds ids = Inr ((docs, t), w1)"
    and d: "decryptRecords P w1 docs ek = Inr ((rs, t2), w')"
    and sn: "sampleNote r = None"
    by (auto simp: legacy_index_result_def Let_def split: sum.splits prod.splits)
  from fetchRecordsByIds_Inr[OF f] obtain gs where
    gs: "concat gs = ids"
    and w1: "w1 = w\<lparr>ticks := Suc (Suc (ticks w)), store_reads := store_reads w @ gs\<rparr>"
    by blast
  from decryptRecords_Inr[OF d] have "w' = w1\<lparr>ticks := Suc (Suc (ticks w1))\<rparr>" by simp
  with w1 have "store_reads w' = store_reads w @ gs" by simp
  with gs sn show ?thesis by blast
qed

text \<open>
  On the bucket of 75 ids, of which the store holds three records, it reports 3 results
  and no note.
\<close>

lemma legacy_index_result_on_75:
  "(case legacy_index_result demo_P big_bucket_world ''people-1k'' demo_key blindIndex 0
           (Some bucket75) of
      Inl e \<Rightarrow> False
    | Inr (r, w) \<Rightarrow> resultCount r = 3 \<and> sampleNote r = None)"
  by (simp add: legacy_index_result_def model_defs big_bucket_world_def bucket75_def
                chunk_loop.simps Let_def cong: eval_congs)

text \<open>
  Its Decrypt-and-Scan decrypts and scans the first \<open>legacy_sampleSize\<close> records only:
  2000 of the 10000 of \<^verbatim>\<open>people-10k\<close>.
\<close>

lemma legacy_decryptScan_samples:
  assumes "legacy_run_decryptScan P w ds nq ek = Inr (r, w')"
  shows "\<exists>rs. decrypt_loop P ek (take (legacy_sampleSize ds) (store_records w ds)) [] = Inr rs
              \<and> resultCount r = length (filter (matchesQuery nq) rs)"
proof -
  from assms obtain docs t w1 rs t2 w2 where
    f: "fetchRecordPage w ds (legacy_sampleSize ds) = Inr ((docs, t), w1)"
    and d: "decryptRecords P w1 docs ek = Inr ((rs, t2), w2)"
    and rc: "resultCount r = length (filter (matchesQuery nq) rs)"
    by (auto simp: legacy_run_decryptScan_def scanRecords_def now_def Let_def
             split: sum.splits prod.splits)
  from fetchRecordPage_Inr[OF f] decryptRecords_Inr[OF d] rc show ?thesis by auto
qed

lemma legacy_sampleSize_10k: "legacy_sampleSize ''people-10k'' = 2000"
  by (simp add: legacy_sampleSize_def getDatasetSize_def)


end
